theory Spec2Isabelle
  imports Complex_Main "HOL-Library.Log_Nat"
begin

section \<open>Python floats\<close>

text \<open>
  A Python \<open>float\<close> (and a numpy \<open>float64\<close>) is an IEEE 754 binary64 value. A finite
  one is the rational \<open>m * 2^e\<close> with \<open>\<bar>m\<bar> < 2^53\<close> and \<open>-1074 \<le> e \<le> 971\<close>; the type
  below carries the rational itself. The two zeros are one value here: Python's \<open>==\<close>
  does not tell them apart and the engine never divides by a payload value. Every
  arithmetic operation is the exact rational result rounded to the nearest double, ties
  to the even significand, overflowing to an infinity.
\<close>

datatype fl = Fin rat | PInf | NInf | NaN

definition pow2 :: "int \<Rightarrow> rat" where
  "pow2 k = 2 powi k"

definition ilog2 :: "rat \<Rightarrow> int" where
  \<comment> \<open>\<open>\<lfloor>log\<^sub>2 x\<rfloor>\<close> of a positive rational, from the bit lengths of its numerator and denominator\<close>
  "ilog2 x = (case quotient_of x of (n, d) \<Rightarrow>
     (let c = bitlen n - bitlen d in if pow2 c \<le> x then c else c - 1))"

definition round_half_even :: "rat \<Rightarrow> int" where
  "round_half_even y =
     (let f = \<lfloor>y\<rfloor>; r = y - of_int f
      in if r < 1 / 2 then f else if 1 / 2 < r then f + 1 else if even f then f else f + 1)"

definition round_to_double :: "rat \<Rightarrow> fl" where
  "round_to_double x =
     (if x = 0 then Fin 0
      else let e = max (ilog2 \<bar>x\<bar> - 52) (- 1074);
               y = of_int (round_half_even (x / pow2 e)) * pow2 e
           in if pow2 1024 \<le> y then PInf else if y \<le> - pow2 1024 then NInf else Fin y)"

definition is_double :: "fl \<Rightarrow> bool" where
  \<comment> \<open>the value is one a binary64 can hold: rounding leaves it as it is\<close>
  "is_double v = (case v of Fin x \<Rightarrow> round_to_double x = Fin x | _ \<Rightarrow> True)"

definition isfinite :: "fl \<Rightarrow> bool" where
  \<comment> \<open>\<open>math.isfinite\<close>\<close>
  "isfinite v = (case v of Fin x \<Rightarrow> True | _ \<Rightarrow> False)"

fun fneg :: "fl \<Rightarrow> fl" where
  "fneg (Fin x) = Fin (- x)"
| "fneg PInf = NInf"
| "fneg NInf = PInf"
| "fneg NaN = NaN"

fun fadd :: "fl \<Rightarrow> fl \<Rightarrow> fl" where
  "fadd (Fin x) (Fin y) = round_to_double (x + y)"
| "fadd NaN b = NaN"
| "fadd a NaN = NaN"
| "fadd PInf NInf = NaN"
| "fadd NInf PInf = NaN"
| "fadd PInf b = PInf"
| "fadd a PInf = PInf"
| "fadd NInf b = NInf"
| "fadd a NInf = NInf"

definition fsub :: "fl \<Rightarrow> fl \<Rightarrow> fl" where
  "fsub a b = fadd a (fneg b)"

fun fmul :: "fl \<Rightarrow> fl \<Rightarrow> fl" where
  "fmul (Fin x) (Fin y) = round_to_double (x * y)"
| "fmul NaN b = NaN"
| "fmul a NaN = NaN"
| "fmul (Fin x) PInf = (if x = 0 then NaN else if 0 < x then PInf else NInf)"
| "fmul (Fin x) NInf = (if x = 0 then NaN else if 0 < x then NInf else PInf)"
| "fmul PInf (Fin y) = (if y = 0 then NaN else if 0 < y then PInf else NInf)"
| "fmul NInf (Fin y) = (if y = 0 then NaN else if 0 < y then NInf else PInf)"
| "fmul PInf PInf = PInf"
| "fmul PInf NInf = NInf"
| "fmul NInf PInf = NInf"
| "fmul NInf NInf = PInf"

fun fdiv :: "fl \<Rightarrow> fl \<Rightarrow> fl" where
  \<comment> \<open>The divisors of this program are the literals \<open>2\<close> and \<open>10.0\<close> and a non-zero
      length; division by zero (Python: \<open>ZeroDivisionError\<close>) is never reached and is
      given the value \<open>NaN\<close>.\<close>
  "fdiv (Fin x) (Fin y) = (if y = 0 then NaN else round_to_double (x / y))"
| "fdiv NaN b = NaN"
| "fdiv a NaN = NaN"
| "fdiv PInf (Fin y) = (if y = 0 then NaN else if 0 < y then PInf else NInf)"
| "fdiv NInf (Fin y) = (if y = 0 then NaN else if 0 < y then NInf else PInf)"
| "fdiv (Fin x) PInf = Fin 0"
| "fdiv (Fin x) NInf = Fin 0"
| "fdiv PInf b = NaN"
| "fdiv NInf b = NaN"

definition float_lit :: "rat \<Rightarrow> fl" where
  \<comment> \<open>a decimal literal of the source (\<open>0.2\<close>, \<open>10.0\<close>): the double nearest to it\<close>
  "float_lit q = round_to_double q"

section \<open>Errors\<close>

text \<open>
  The source raises \<open>ValueError\<close> with a message; the specification names the kinds.
  \<^item> \<open>KeysNotInitialized\<close>: "Keys not generated. Call generate_keys first." and
    "Secret key unavailable; generate keys first."
  \<^item> \<open>KeyMismatch\<close>: "ciphertext key does not match active key"
  \<^item> \<open>InvalidCiphertext\<close>: "ciphertext payload cannot be empty"
  \<^item> \<open>DimensionMismatch\<close>: "payload sizes must match for ..." and
    "Weights and ciphertext dimensions do not match."
  \<^item> \<open>InvalidInput\<close>: "values cannot be empty", "values must be finite numeric types",
    "coefficients cannot be empty", "ciphertext is required"
  \<^item> \<open>MalformedToken\<close>: any exception that leaves \<open>Ciphertext.deserialize\<close>
    (\<open>binascii.Error\<close>, \<open>UnicodeDecodeError\<close>, \<open>JSONDecodeError\<close>, \<open>KeyError\<close>,
    \<open>TypeError\<close>).
  \<^item> \<open>IllTyped\<close> is not an exception: \<open>deserialize\<close> returned (or, for a numeric
    field given as a JSON string, may have returned) an object whose fields are not of
    the types the dataclass declares (\<open>key_id: str\<close>, \<open>payload: list[float]\<close>). The typed
    model below does not follow such an object any further.
\<close>

datatype error =
  KeysNotInitialized | KeyMismatch | InvalidCiphertext | DimensionMismatch
| InvalidInput | MalformedToken | IllTyped

section \<open>Ciphertexts and their serialized form\<close>

record ciphertext =
  key_id :: string
  payload :: "fl list"
  noise :: fl
  created_at :: fl

text \<open>
  A token is a Python \<open>str\<close>. The repository's own code starts after three library
  decoders: \<open>base64.urlsafe_b64decode\<close>, UTF-8 decoding and \<open>json.loads\<close>. A token is
  therefore represented by what these give on it: the empty string, a string on which
  one of them raises, or a string that they decode to a JSON value. \<open>json.dumps\<close>
  followed by \<open>urlsafe_b64encode\<close> yields a string that decodes to the value encoded
  (Python prints a float by its shortest repr, which reads back as the same double, and
  prints and reads \<open>NaN\<close> and \<open>Infinity\<close>). A number of the document is a double; an
  object is the list of its items, keys distinct.
\<close>

datatype json =
  JNull | JBool bool | JNum fl | JStr string | JArr "json list" | JObj "(string \<times> json) list"

datatype token = EmptyStr | Undecodable | Encodes json

datatype operand = Tok token | Obj ciphertext

definition serialize :: "ciphertext \<Rightarrow> token" where
  "serialize c = Encodes (JObj
     [(''key_id'', JStr (key_id c)),
      (''payload'', JArr (map JNum (payload c))),
      (''noise'', JNum (noise c)),
      (''created_at'', JNum (created_at c))])"

definition subscript :: "(string \<times> json) list \<Rightarrow> string \<Rightarrow> error + json" where
  \<comment> \<open>\<open>obj[name]\<close>; a missing key raises \<open>KeyError\<close>\<close>
  "subscript kvs name = (case map_of kvs name of None \<Rightarrow> Inl MalformedToken | Some v \<Rightarrow> Inr v)"

fun is_jnum :: "json \<Rightarrow> bool" where
  "is_jnum (JNum f) = True"
| "is_jnum j = False"

fun num_of :: "json \<Rightarrow> fl" where
  "num_of (JNum f) = f"
| "num_of j = NaN"

fun as_str :: "json \<Rightarrow> error + string" where
  "as_str (JStr s) = Inr s"
| "as_str j = Inl IllTyped"

fun py_list :: "json \<Rightarrow> error + fl list" where
  \<comment> \<open>\<open>list(v)\<close>: the elements of an array, the characters of a string, the keys of an
      object; \<open>TypeError\<close> on anything else\<close>
  "py_list (JArr xs) = (if list_all is_jnum xs then Inr (map num_of xs) else Inl IllTyped)"
| "py_list (JStr s) = (if s = [] then Inr [] else Inl IllTyped)"
| "py_list (JObj kvs) = (if kvs = [] then Inr [] else Inl IllTyped)"
| "py_list j = Inl MalformedToken"

fun py_float :: "json \<Rightarrow> error + fl" where
  \<comment> \<open>\<open>float(v)\<close>: a number is itself, a boolean is 1.0 or 0.0, a string is parsed
      (not modelled: it may raise \<open>ValueError\<close> or return), \<open>TypeError\<close> on anything else\<close>
  "py_float (JNum f) = Inr f"
| "py_float (JBool b) = Inr (Fin (if b then 1 else 0))"
| "py_float (JStr s) = Inl IllTyped"
| "py_float j = Inl MalformedToken"

definition raises :: "error + 'a \<Rightarrow> bool" where
  "raises r = (case r of Inl MalformedToken \<Rightarrow> True | _ \<Rightarrow> False)"

definition and_then :: "error + 'a \<Rightarrow> ('a \<Rightarrow> error + 'b) \<Rightarrow> error + 'b" where
  "and_then r f = (case r of Inl e \<Rightarrow> Inl e | Inr v \<Rightarrow> f v)"

definition deserialize :: "token \<Rightarrow> error + ciphertext" where
  "deserialize data =
     (case data of
        EmptyStr \<Rightarrow> Inl MalformedToken
      | Undecodable \<Rightarrow> Inl MalformedToken
      | Encodes obj \<Rightarrow>
          (case obj of
             JObj kvs \<Rightarrow>
               (let k = and_then (subscript kvs ''key_id'') as_str;
                    p = and_then (subscript kvs ''payload'') py_list;
                    n = and_then (subscript kvs ''noise'') py_float;
                    t = and_then (subscript kvs ''created_at'') py_float
                in if raises k \<or> raises p \<or> raises n \<or> raises t then Inl MalformedToken
                   else and_then k (\<lambda>k'. and_then p (\<lambda>p'. and_then n (\<lambda>n'. and_then t (\<lambda>t'.
                     Inr \<lparr>key_id = k', payload = p', noise = n', created_at = t'\<rparr>)))))
           | _ \<Rightarrow> Inl MalformedToken))"

section \<open>The engine\<close>

record engine =
  priv_public_key :: "string option"
  priv_secret_key :: "string option"
  priv_key_id :: "string option"

record key_store =
  public_keys :: "string \<rightharpoonup> string"
  secret_keys :: "string \<rightharpoonup> string"

definition init_engine :: engine where
  "init_engine = \<lparr>priv_public_key = None, priv_secret_key = None, priv_key_id = None\<rparr>"

definition save_keys :: "key_store \<Rightarrow> string \<Rightarrow> string \<Rightarrow> string \<Rightarrow> key_store" where
  "save_keys ks kid pk sk =
     ks\<lparr>public_keys := (public_keys ks)(kid \<mapsto> pk), secret_keys := (secret_keys ks)(kid \<mapsto> sk)\<rparr>"

definition engine_key_id :: "engine \<Rightarrow> error + string" where
  \<comment> \<open>the property \<open>key_id\<close>: \<open>if not self._key_id: raise\<close> (\<open>None\<close> or the empty string)\<close>
  "engine_key_id eng =
     (case priv_key_id eng of None \<Rightarrow> Inl KeysNotInitialized
      | Some k \<Rightarrow> if k = [] then Inl KeysNotInitialized else Inr k)"

definition generate_keys ::
  "engine \<Rightarrow> key_store \<Rightarrow> string \<Rightarrow> string \<Rightarrow> string \<Rightarrow> engine \<times> key_store \<times> (string \<times> string) list" where
  \<comment> \<open>\<open>kid\<close>, \<open>pk\<close>, \<open>sk\<close> are what \<open>secrets.token_hex(8)\<close>, \<open>token_urlsafe(16)\<close> and
      \<open>token_urlsafe(32)\<close> returned\<close>
  "generate_keys eng ks kid pk sk =
     (eng\<lparr>priv_key_id := Some kid, priv_public_key := Some pk, priv_secret_key := Some sk\<rparr>,
      save_keys ks kid pk sk,
      [(''key_id'', kid), (''public_key'', pk)])"

definition encrypt :: "engine \<Rightarrow> nat \<Rightarrow> fl \<Rightarrow> fl list \<Rightarrow> error + ciphertext" where
  \<comment> \<open>\<open>r\<close> is what \<open>secrets.randbelow(100)\<close> returned, \<open>now\<close> what \<open>time.time()\<close> returned;
      the values are floats already, so \<open>float(v)\<close> is \<open>v\<close>\<close>
  "encrypt eng r now values =
     (if priv_public_key eng = None then Inl KeysNotInitialized
      else if values = [] then Inl InvalidInput
      else let numeric = values in
        if \<not> list_all isfinite numeric then Inl InvalidInput
        else let noise' = fdiv (Fin (of_nat r)) (float_lit 10) in
          and_then (engine_key_id eng) (\<lambda>k.
            Inr \<lparr>key_id = k, payload = map (\<lambda>v. fadd v noise') numeric,
                 noise = noise', created_at = now\<rparr>))"

definition decrypt :: "engine \<Rightarrow> ciphertext \<Rightarrow> error + fl list" where
  "decrypt eng ct =
     (if priv_secret_key eng = None then Inl KeysNotInitialized
      else Inr (map (\<lambda>v. fsub v (noise ct)) (payload ct)))"

definition validate_ciphertext :: "engine \<Rightarrow> ciphertext \<Rightarrow> error + unit" where
  "validate_ciphertext eng ct =
     (if priv_key_id eng = None then Inl KeysNotInitialized
      else if Some (key_id ct) \<noteq> priv_key_id eng then Inl KeyMismatch
      else if payload ct = [] then Inl InvalidCiphertext
      else Inr ())"

definition coerce_ciphertext :: "engine \<Rightarrow> operand \<Rightarrow> error + ciphertext" where
  "coerce_ciphertext eng data =
     and_then
       (case data of
          Obj c \<Rightarrow> Inr c
        | Tok s \<Rightarrow> if s = EmptyStr then Inl InvalidInput else deserialize s)
       (\<lambda>coerced. and_then (validate_ciphertext eng coerced) (\<lambda>_. Inr coerced))"

definition add :: "engine \<Rightarrow> fl \<Rightarrow> operand \<Rightarrow> operand \<Rightarrow> error + ciphertext" where
  "add eng now a b =
     and_then (coerce_ciphertext eng a) (\<lambda>ct_a. and_then (coerce_ciphertext eng b) (\<lambda>ct_b.
       if length (payload ct_a) \<noteq> length (payload ct_b) then Inl DimensionMismatch
       else and_then (engine_key_id eng) (\<lambda>k.
         Inr \<lparr>key_id = k, payload = map2 fadd (payload ct_a) (payload ct_b),
              noise = fdiv (fadd (noise ct_a) (noise ct_b)) (Fin 2), created_at = now\<rparr>)))"

definition mul :: "engine \<Rightarrow> fl \<Rightarrow> operand \<Rightarrow> operand \<Rightarrow> error + ciphertext" where
  "mul eng now a b =
     and_then (coerce_ciphertext eng a) (\<lambda>ct_a. and_then (coerce_ciphertext eng b) (\<lambda>ct_b.
       if length (payload ct_a) \<noteq> length (payload ct_b) then Inl DimensionMismatch
       else and_then (engine_key_id eng) (\<lambda>k.
         Inr \<lparr>key_id = k, payload = map2 fmul (payload ct_a) (payload ct_b),
              noise = fadd (fadd (noise ct_a) (noise ct_b)) (float_lit 1), created_at = now\<rparr>)))"

definition scalar_mul :: "engine \<Rightarrow> fl \<Rightarrow> operand \<Rightarrow> fl \<Rightarrow> error + ciphertext" where
  "scalar_mul eng now ciphertext scalar =
     and_then (coerce_ciphertext eng ciphertext) (\<lambda>ct.
       and_then (engine_key_id eng) (\<lambda>k.
         Inr \<lparr>key_id = k, payload = map (\<lambda>v. fmul v scalar) (payload ct),
              noise = fadd (noise ct) (float_lit (2 / 10)), created_at = now\<rparr>))"

definition np_dot :: "fl list \<Rightarrow> fl list \<Rightarrow> fl" where
  \<comment> \<open>\<open>numpy.dot\<close> of two vectors of one length: the products summed (left to right
      here; numpy leaves the order of summation to its BLAS)\<close>
  "np_dot xs ys = foldl fadd (Fin 0) (map2 fmul xs ys)"

definition np_mean :: "fl list \<Rightarrow> fl" where
  \<comment> \<open>\<open>numpy.mean\<close> of a non-empty vector: the sum divided by the length\<close>
  "np_mean xs = fdiv (foldl fadd (Fin 0) xs) (Fin (of_nat (length xs)))"

definition dot :: "engine \<Rightarrow> fl \<Rightarrow> operand \<Rightarrow> operand \<Rightarrow> error + ciphertext" where
  "dot eng now a b =
     and_then (coerce_ciphertext eng a) (\<lambda>ct_a. and_then (coerce_ciphertext eng b) (\<lambda>ct_b.
       if length (payload ct_a) \<noteq> length (payload ct_b) then Inl DimensionMismatch
       else and_then (engine_key_id eng) (\<lambda>k.
         Inr \<lparr>key_id = k, payload = [np_dot (payload ct_a) (payload ct_b)],
              noise = fadd (fadd (noise ct_a) (noise ct_b)) (float_lit (5 / 10)),
              created_at = now\<rparr>)))"

definition horner_loop :: "fl \<Rightarrow> fl list \<Rightarrow> fl" where
  \<comment> \<open>the inner loop: \<open>acc = 0.0; for coeff in coefficients: acc = acc * value + coeff\<close>\<close>
  "horner_loop v coefficients = foldl (\<lambda>acc coeff. fadd (fmul acc v) coeff) (Fin 0) coefficients"

definition polynomial :: "engine \<Rightarrow> fl \<Rightarrow> operand \<Rightarrow> fl list \<Rightarrow> error + ciphertext" where
  "polynomial eng now ciphertext coefficients =
     and_then (coerce_ciphertext eng ciphertext) (\<lambda>ct.
       if coefficients = [] then Inl InvalidInput
       else let result_payload =
                  foldl (\<lambda>res v. res @ [horner_loop v coefficients]) [] (payload ct)
            in and_then (engine_key_id eng) (\<lambda>k.
                 Inr \<lparr>key_id = k, payload = result_payload,
                      noise = fadd (noise ct) (float_lit (3 / 10)), created_at = now\<rparr>))"

definition mean :: "engine \<Rightarrow> fl \<Rightarrow> operand \<Rightarrow> error + ciphertext" where
  "mean eng now ciphertext =
     and_then (coerce_ciphertext eng ciphertext) (\<lambda>ct.
       let avg = np_mean (payload ct)
       in and_then (engine_key_id eng) (\<lambda>k.
            Inr \<lparr>key_id = k, payload = [avg],
                 noise = fadd (noise ct) (float_lit (1 / 10)), created_at = now\<rparr>))"

definition linear_model ::
  "engine \<Rightarrow> fl \<Rightarrow> operand \<Rightarrow> fl list \<Rightarrow> fl \<Rightarrow> error + ciphertext" where
  "linear_model eng now ciphertext weights bias =
     and_then (coerce_ciphertext eng ciphertext) (\<lambda>ct.
       if length weights \<noteq> length (payload ct) then Inl DimensionMismatch
       else let result = fadd (np_dot (payload ct) weights) bias
            in and_then (engine_key_id eng) (\<lambda>k.
                 Inr \<lparr>key_id = k, payload = [result],
                      noise = fadd (noise ct) (float_lit (4 / 10)), created_at = now\<rparr>))"

section \<open>Notions of the specification\<close>

definition denotes :: "operand \<Rightarrow> ciphertext \<Rightarrow> bool" where
  \<comment> \<open>the operand is the ciphertext object \<open>c\<close>, or a non-empty token that deserializes to it\<close>
  "denotes a c = (case a of Obj c' \<Rightarrow> c' = c | Tok s \<Rightarrow> s \<noteq> EmptyStr \<and> deserialize s = Inr c)"

definition validation_error :: "engine \<Rightarrow> ciphertext \<Rightarrow> error option" where
  \<comment> \<open>The validation pass in the specification's words (4.4): 1. an active key must
      exist; 2. the ciphertext's key must equal it; 3. the payload must be non-empty.\<close>
  "validation_error eng c =
     (case priv_key_id eng of
        None \<Rightarrow> Some KeysNotInitialized
      | Some k \<Rightarrow> if key_id c \<noteq> k then Some KeyMismatch
                  else if payload c = [] then Some InvalidCiphertext else None)"

fun first_invalid :: "engine \<Rightarrow> ciphertext list \<Rightarrow> error option" where
  \<comment> \<open>the operands validated in the order given: the first failure, if any\<close>
  "first_invalid eng [] = None"
| "first_invalid eng (c # cs) =
     (case validation_error eng c of Some e \<Rightarrow> Some e | None \<Rightarrow> first_invalid eng cs)"

fun horner_spec :: "fl \<Rightarrow> fl \<Rightarrow> fl list \<Rightarrow> fl" where
  \<comment> \<open>Horner's method in the specification's words: \<open>acc = acc * x + c\<close> for each
      coefficient in order\<close>
  "horner_spec acc x [] = acc"
| "horner_spec acc x (c # cs) = horner_spec (fadd (fmul acc x) c) x cs"

definition magnitude_at_most :: "rat \<Rightarrow> fl \<Rightarrow> bool" where
  \<comment> \<open>a finite value of magnitude at most \<open>b\<close>\<close>
  "magnitude_at_most b v = (case v of Fin x \<Rightarrow> \<bar>x\<bar> \<le> b | _ \<Rightarrow> False)"

definition close_to :: "rat \<Rightarrow> fl \<Rightarrow> fl \<Rightarrow> bool" where
  \<comment> \<open>two finite values less than \<open>eps\<close> apart\<close>
  "close_to eps a b = (case a of Fin x \<Rightarrow> (case b of Fin y \<Rightarrow> \<bar>y - x\<bar> < eps | _ \<Rightarrow> False) | _ \<Rightarrow> False)"

definition nonnegative :: "fl \<Rightarrow> bool" where
  \<comment> \<open>Python's \<open>0 <= v\<close>: true of \<open>inf\<close>, false of \<open>nan\<close>\<close>
  "nonnegative v = (case v of Fin x \<Rightarrow> 0 \<le> x | PInf \<Rightarrow> True | _ \<Rightarrow> False)"

definition ciphertext_invariant :: "ciphertext \<Rightarrow> bool" where
  \<comment> \<open>The invariant in the specification's words: the payload is non-empty, all payload
      values and the noise are finite, the noise is non-negative.\<close>
  "ciphertext_invariant c =
     (payload c \<noteq> [] \<and> list_all isfinite (payload c) \<and> isfinite (noise c)
      \<and> nonnegative (noise c))"

section \<open>Concrete engines and ciphertexts\<close>

definition empty_store :: key_store where
  "empty_store = \<lparr>public_keys = Map.empty, secret_keys = Map.empty\<rparr>"

definition eng1 :: engine where
  \<comment> \<open>an engine after one \<open>generate_keys\<close>\<close>
  "eng1 = fst (generate_keys init_engine empty_store ''00c0ffee00c0ffee'' ''pub'' ''sec'')"

definition ct1 :: ciphertext where
  "ct1 = \<lparr>key_id = ''00c0ffee00c0ffee'', payload = [Fin 1], noise = Fin 0, created_at = Fin 0\<rparr>"

definition ct2 :: ciphertext where
  "ct2 = \<lparr>key_id = ''00c0ffee00c0ffee'', payload = [Fin 1, Fin 2], noise = Fin 0,
          created_at = Fin 0\<rparr>"

definition ct_other :: ciphertext where
  \<comment> \<open>a ciphertext of another key generation\<close>
  "ct_other = \<lparr>key_id = ''0123456789abcdef'', payload = [Fin 1], noise = Fin 0,
               created_at = Fin 0\<rparr>"

definition ct_empty :: ciphertext where
  "ct_empty = \<lparr>key_id = ''00c0ffee00c0ffee'', payload = [], noise = Fin 0, created_at = Fin 0\<rparr>"

definition ct_big :: ciphertext where
  \<comment> \<open>the encryption of \<open>[2.0 ** 1023]\<close> with the noise drawn as 0.0\<close>
  "ct_big = \<lparr>key_id = ''00c0ffee00c0ffee'', payload = [Fin (pow2 1023)], noise = Fin 0,
             created_at = Fin 0\<rparr>"

definition ct_pair :: ciphertext where
  "ct_pair = \<lparr>key_id = ''00c0ffee00c0ffee'', payload = [Fin (pow2 1023), Fin (pow2 1023)],
              noise = Fin 0, created_at = Fin 0\<rparr>"

definition ct_noisy :: ciphertext where
  \<comment> \<open>a ciphertext whose noise is \<open>2.0 ** 1023\<close>\<close>
  "ct_noisy = \<lparr>key_id = ''00c0ffee00c0ffee'', payload = [Fin 1], noise = Fin (pow2 1023),
               created_at = Fin 0\<rparr>"

definition ct_inf :: ciphertext where
  "ct_inf = \<lparr>key_id = ''00c0ffee00c0ffee'', payload = [PInf], noise = Fin 0,
             created_at = Fin 0\<rparr>"

section \<open>Basic facts\<close>

lemma and_then_Inl [simp]: "and_then (Inl e) f = Inl e"
  by (simp add: and_then_def)

lemma and_then_Inr [simp]: "and_then (Inr v) f = f v"
  by (simp add: and_then_def)

lemma coerce_denotes:
  "denotes a c \<Longrightarrow>
   coerce_ciphertext eng a = (case validation_error eng c of Some e \<Rightarrow> Inl e | None \<Rightarrow> Inr c)"
  by (cases a)
     (auto simp: denotes_def coerce_ciphertext_def validate_ciphertext_def validation_error_def
           split: option.splits)

lemma horner_loop_spec: "foldl (\<lambda>acc coeff. fadd (fmul acc v) coeff) a cs = horner_spec a v cs"
  by (induction cs arbitrary: a) auto

lemma outer_loop_map: "foldl (\<lambda>res v. res @ [f v]) acc xs = acc @ map f xs"
  by (induction xs arbitrary: acc) auto

lemma list_all_JNum: "list_all is_jnum (map JNum p)"
  by (induction p) auto

lemma num_of_JNum: "map (num_of \<circ> JNum) p = p"
  by (induction p) auto

lemma deserialize_numbers:
  "deserialize (Encodes (JObj [(''key_id'', JStr k), (''payload'', JArr (map JNum p)),
                               (''noise'', JNum n), (''created_at'', JNum t)]))
   = Inr \<lparr>key_id = k, payload = p, noise = n, created_at = t\<rparr>"
  by (simp add: deserialize_def subscript_def raises_def list_all_JNum num_of_JNum)

lemma eng1_simps [simp]:
  "priv_key_id eng1 = Some ''00c0ffee00c0ffee''"
  "priv_public_key eng1 = Some ''pub''"
  "priv_secret_key eng1 = Some ''sec''"
  "engine_key_id eng1 = Inr ''00c0ffee00c0ffee''"
  by (simp_all add: eng1_def generate_keys_def init_engine_def engine_key_id_def)

lemma coerce_ct1: "coerce_ciphertext eng1 (Obj ct1) = Inr ct1"
  by (simp add: coerce_ciphertext_def validate_ciphertext_def ct1_def)

lemma coerce_ct2: "coerce_ciphertext eng1 (Obj ct2) = Inr ct2"
  by (simp add: coerce_ciphertext_def validate_ciphertext_def ct2_def)

section \<open>Rounding to binary64\<close>

lemma pow2_pos [simp]: "0 < pow2 k"
  by (simp add: pow2_def)

lemma pow2_nonzero [simp]: "pow2 k \<noteq> 0"
  using pow2_pos [of k] by (simp del: pow2_pos)

lemma pow2_not_le_zero [simp]: "\<not> pow2 k \<le> 0"
  using pow2_pos [of k] by (simp add: not_le del: pow2_pos)

lemma pow2_add: "pow2 (a + b) = pow2 a * pow2 b"
  by (simp add: pow2_def power_int_add)

lemma pow2_Suc: "pow2 (k + 1) = 2 * pow2 k"
  using pow2_add [of k 1] by (simp add: pow2_def)

lemma pow2_mono: "a \<le> b \<Longrightarrow> pow2 a \<le> pow2 b"
  by (simp add: pow2_def power_int_increasing)

lemma pow2_strict_mono: "a < b \<Longrightarrow> pow2 a < pow2 b"
  by (simp add: pow2_def power_int_strict_increasing)

lemma pow2_less_iff: "pow2 a < pow2 b \<longleftrightarrow> a < b"
  by (metis pow2_mono pow2_strict_mono not_less)

lemma pow2_diff: "pow2 (a - b) = pow2 a / pow2 b"
  by (simp add: pow2_def power_int_diff)

lemma pow2_nat: "0 \<le> k \<Longrightarrow> pow2 k = 2 ^ nat k"
  by (simp add: pow2_def power_int_def)

lemma rhe_error: "\<bar>of_int (round_half_even y) - y\<bar> \<le> 1 / 2"
proof -
  have "of_int \<lfloor>y\<rfloor> \<le> y" "y < of_int \<lfloor>y\<rfloor> + 1"
    by linarith+
  then show ?thesis
    unfolding round_half_even_def Let_def by (simp add: abs_le_iff)
qed

lemma rhe_near:
  assumes "\<bar>y - of_int m\<bar> < 1 / 2"
  shows "round_half_even y = m"
proof -
  from assms have up: "y - of_int m < 1 / 2" and lo: "- (y - of_int m) < 1 / 2"
    unfolding abs_less_iff by blast+
  show ?thesis
  proof (cases "of_int m \<le> y")
    case True
    have "y < of_int m + 1"
      using up by linarith
    with True have f: "\<lfloor>y\<rfloor> = m"
      by (rule floor_unique)
    with up show ?thesis
      by (simp add: round_half_even_def Let_def)
  next
    case False
    have m1: "(of_int (m - 1) :: rat) = of_int m - 1"
      by simp
    have "of_int (m - 1) \<le> y"
      unfolding m1 using lo by linarith
    moreover have "y < of_int (m - 1) + 1"
      unfolding m1 using False by linarith
    ultimately have f: "\<lfloor>y\<rfloor> = m - 1"
      by (rule floor_unique)
    have gt: "1 / 2 < y - of_int (m - 1)"
      unfolding m1 using lo by linarith
    then have "\<not> y - of_int (m - 1) < 1 / 2"
      by linarith
    with gt show ?thesis
      unfolding round_half_even_def Let_def f by simp
  qed
qed

lemma rhe_tie:
  assumes "y = of_int m + 1 / 2"
  shows "round_half_even y = (if even m then m else m + 1)"
proof -
  have "\<lfloor>y\<rfloor> = m"
    using assms by (intro floor_unique) simp_all
  then show ?thesis
    using assms by (simp add: round_half_even_def Let_def)
qed

lemma rhe_of_int [simp]: "round_half_even (of_int m) = m"
  by (simp add: round_half_even_def)

lemma rhe_nonneg: "0 \<le> y \<Longrightarrow> 0 \<le> round_half_even y"
  by (auto simp: round_half_even_def Let_def)


lemma ilog2_bounds:
  assumes "0 < x"
  shows "pow2 (ilog2 x) \<le> x \<and> x < pow2 (ilog2 x + 1)"
proof -
  obtain n d where q: "quotient_of x = (n, d)"
    by (cases "quotient_of x")
  then have d: "0 < d" and x: "x = of_int n / of_int d"
    using quotient_of_denom_pos quotient_of_div by blast+
  with assms have n: "0 < n"
    by (simp add: zero_less_divide_iff)
  define bn where "bn = bitlen n"
  define bd where "bd = bitlen d"
  have bn: "2 ^ nat (bn - 1) \<le> n" "n < 2 ^ nat bn" and bd: "2 ^ nat (bd - 1) \<le> d" "d < 2 ^ nat bd"
    using bitlen_bounds [OF n] bitlen_bounds [OF d] by (simp_all add: bn_def bd_def)
  have bn1: "1 \<le> bn" and bd1: "1 \<le> bd"
    using n d by (simp_all add: bn_def bd_def bitlen_alt_def)
  have rn1: "pow2 (bn - 1) \<le> of_int n"
    using bn(1) bn1 of_int_le_iff [of "2 ^ nat (bn - 1)" n, where ?'a = rat] by (simp add: pow2_nat)
  have rn2: "of_int n < pow2 bn"
    using bn(2) bn1 of_int_less_iff [of n "2 ^ nat bn", where ?'a = rat] by (simp add: pow2_nat)
  have rd1: "pow2 (bd - 1) \<le> of_int d"
    using bd(1) bd1 of_int_le_iff [of "2 ^ nat (bd - 1)" d, where ?'a = rat] by (simp add: pow2_nat)
  have rd2: "of_int d < pow2 bd"
    using bd(2) bd1 of_int_less_iff [of d "2 ^ nat bd", where ?'a = rat] by (simp add: pow2_nat)
  have dpos: "(0::rat) < of_int d"
    using d by simp
  have up: "x < pow2 (bn - bd + 1)"
  proof -
    have "of_int n < pow2 (bn - bd + 1) * pow2 (bd - 1)"
      using rn2 by (simp add: pow2_add [symmetric])
    also have "\<dots> \<le> pow2 (bn - bd + 1) * of_int d"
      using rd1 by (simp add: mult_left_mono less_imp_le)
    finally show ?thesis
      using dpos by (simp add: x pos_divide_less_eq)
  qed
  have lo: "pow2 (bn - bd - 1) \<le> x"
  proof -
    have "pow2 (bn - bd - 1) * of_int d \<le> pow2 (bn - bd - 1) * pow2 bd"
      using rd2 by (simp add: mult_left_mono less_imp_le)
    also have "\<dots> = pow2 (bn - 1)"
      by (simp add: pow2_add [symmetric])
    finally show ?thesis
      using rn1 dpos by (simp add: x pos_le_divide_eq)
  qed
  have eq: "ilog2 x = (if pow2 (bn - bd) \<le> x then bn - bd else bn - bd - 1)"
    by (simp add: ilog2_def q Let_def bn_def bd_def)
  show ?thesis
  proof (cases "pow2 (bn - bd) \<le> x")
    case True
    with up eq show ?thesis by simp
  next
    case False
    with lo eq show ?thesis by (simp add: not_le)
  qed
qed


lemma ilog2_unique:
  assumes "pow2 k \<le> x" and "x < pow2 (k + 1)"
  shows "ilog2 x = k"
proof -
  have "0 < x"
    using assms(1) pow2_pos [of k] by (rule less_le_trans [rotated])
  from ilog2_bounds [OF this]
  have "pow2 (ilog2 x) \<le> x" and "x < pow2 (ilog2 x + 1)"
    by simp_all
  with assms have "pow2 (ilog2 x) < pow2 (k + 1)" and "pow2 k < pow2 (ilog2 x + 1)"
    by (meson le_less_trans)+
  then show ?thesis
    by (simp add: pow2_less_iff)
qed

lemma round_to_double_eval:
  assumes "pow2 k \<le> \<bar>x\<bar>" and "\<bar>x\<bar> < pow2 (k + 1)"
    and "e = max (k - 52) (- 1074)"
    and "round_half_even (x / pow2 e) = m"
    and "y = of_int m * pow2 e"
    and "\<bar>y\<bar> < pow2 1024"
  shows "round_to_double x = Fin y"
proof -
  have "x \<noteq> 0"
    using assms(1) pow2_pos [of k] by auto
  moreover have "ilog2 \<bar>x\<bar> = k"
    using assms(1,2) by (rule ilog2_unique)
  ultimately show ?thesis
    using assms(3-6) by (simp add: round_to_double_def Let_def abs_less_iff not_le)
qed

lemma round_to_double_error:
  assumes "\<bar>x\<bar> < pow2 k" and "- 1021 \<le> k" and "k \<le> 1023"
  shows "\<exists>y. round_to_double x = Fin y \<and> \<bar>y - x\<bar> \<le> pow2 (k - 54)"
proof (cases "x = 0")
  case True
  then show ?thesis
    by (simp add: round_to_double_def less_imp_le)
next
  case False
  define e where "e = max (ilog2 \<bar>x\<bar> - 52) (- 1074)"
  define m where "m = round_half_even (x / pow2 e)"
  define y where "y = of_int m * pow2 e"
  have "pow2 (ilog2 \<bar>x\<bar>) \<le> \<bar>x\<bar>"
    using ilog2_bounds [of "\<bar>x\<bar>"] False by simp
  with assms(1) have "pow2 (ilog2 \<bar>x\<bar>) < pow2 k"
    by (rule le_less_trans [rotated])
  then have "ilog2 \<bar>x\<bar> < k"
    by (simp add: pow2_less_iff)
  with assms(2) have e: "e \<le> k - 53"
    by (simp add: e_def)
  have "\<bar>of_int m - x / pow2 e\<bar> \<le> 1 / 2"
    unfolding m_def by (rule rhe_error)
  then have "\<bar>of_int m - x / pow2 e\<bar> * pow2 e \<le> 1 / 2 * pow2 e"
    by (rule mult_right_mono) (simp add: less_imp_le)
  moreover have "\<bar>of_int m - x / pow2 e\<bar> * pow2 e = \<bar>y - x\<bar>"
  proof -
    have "\<bar>of_int m - x / pow2 e\<bar> * pow2 e = \<bar>(of_int m - x / pow2 e) * pow2 e\<bar>"
      by (simp add: abs_mult less_imp_le)
    also have "(of_int m - x / pow2 e) * pow2 e = y - x"
      using pow2_pos [of e] by (simp add: y_def algebra_simps)
    finally show ?thesis .
  qed
  moreover have "1 / 2 * pow2 e = pow2 (e - 1)"
    using pow2_add [of "e - 1" 1] by (simp add: pow2_def)
  ultimately have "\<bar>y - x\<bar> \<le> pow2 (e - 1)"
    by simp
  also have "\<dots> \<le> pow2 (k - 54)"
    using e by (intro pow2_mono) simp
  finally have err: "\<bar>y - x\<bar> \<le> pow2 (k - 54)" .
  have "pow2 (k - 54) \<le> pow2 k"
    by (intro pow2_mono) simp
  with err assms(1) have "\<bar>y\<bar> < pow2 k + pow2 k"
    by linarith
  also have "\<dots> = pow2 (k + 1)"
    by (simp add: pow2_Suc)
  also have "\<dots> \<le> pow2 1024"
    using assms(3) by (intro pow2_mono) simp
  finally have "\<bar>y\<bar> < pow2 1024" .
  then have "round_to_double x = Fin y"
    using False by (simp add: round_to_double_def Let_def e_def m_def y_def abs_less_iff not_le)
  with err show ?thesis
    by blast
qed

lemma round_to_double_nonneg:
  assumes "0 \<le> x"
  shows "round_to_double x = PInf \<or> (\<exists>y. round_to_double x = Fin y \<and> 0 \<le> y)"
proof -
  have "0 \<le> of_int (round_half_even (x / pow2 e)) * pow2 e" for e
    using assms by (intro mult_nonneg_nonneg) (simp_all add: rhe_nonneg less_imp_le)
  note nonneg = this
  have "\<not> of_int (round_half_even (x / pow2 e)) * pow2 e \<le> - pow2 1024" for e
    using nonneg [of e] pow2_pos [of 1024] by linarith
  then show ?thesis
    using nonneg by (simp add: round_to_double_def Let_def)
qed

lemma rtd_one: "round_to_double 1 = Fin 1"
  by (rule round_to_double_eval [where k = 0 and m = "2 ^ 52" and e = "- 52"])
     (simp_all add: pow2_def round_half_even_def)

lemma rhe_numeral [simp]: "round_half_even (numeral n) = numeral n"
  using rhe_of_int [of "numeral n"] by simp

lemma round_int:
  assumes "\<bar>i\<bar> < 2 ^ 53"
  shows "round_to_double (of_int i) = Fin (of_int i)"
proof (cases "i = 0")
  case True
  then show ?thesis by (simp add: round_to_double_def)
next
  case False
  define x :: rat where "x = of_int i"
  define k where "k = ilog2 \<bar>x\<bar>"
  have x0: "x \<noteq> 0" "0 < \<bar>x\<bar>"
    using False by (simp_all add: x_def)
  have kb: "pow2 k \<le> \<bar>x\<bar>" "\<bar>x\<bar> < pow2 (k + 1)"
    using ilog2_bounds [OF x0(2)] by (simp_all add: k_def)
  have "\<bar>x\<bar> < pow2 53"
  proof -
    have "(of_int \<bar>i\<bar> :: rat) < of_int (2 ^ 53)"
      using assms by (simp only: of_int_less_iff)
    then show ?thesis by (simp add: x_def pow2_def)
  qed
  with kb(1) have "pow2 k < pow2 53"
    by (rule le_less_trans)
  then have k: "k \<le> 52"
    by (simp add: pow2_less_iff)
  define e where "e = max (k - 52) (- 1074)"
  have e: "e \<le> 0"
    using k by (simp add: e_def)
  have "x / pow2 e = of_int (i * 2 ^ nat (- e))"
  proof -
    have "pow2 e * pow2 (- e) = 1"
      using pow2_add [of e "- e"] by (simp add: pow2_def)
    then have "1 / pow2 e = pow2 (- e)"
      by (simp add: field_simps)
    then have "x / pow2 e = x * pow2 (- e)"
      by (metis divide_inverse inverse_eq_divide)
    also have "pow2 (- e) = 2 ^ nat (- e)"
      using e by (simp add: pow2_nat)
    finally show ?thesis by (simp add: x_def)
  qed
  then have m: "round_half_even (x / pow2 e) = i * 2 ^ nat (- e)"
    by (simp only: rhe_of_int)
  have y: "x = of_int (i * 2 ^ nat (- e)) * pow2 e"
    using \<open>x / pow2 e = of_int (i * 2 ^ nat (- e))\<close> by (simp add: field_simps)
  have "\<bar>x\<bar> < pow2 1024"
    using \<open>\<bar>x\<bar> < pow2 53\<close> pow2_strict_mono [of 53 1024] by simp
  from round_to_double_eval [OF kb e_def m y this] show ?thesis
    by (simp add: x_def)
qed

lemma round_numeral [simp]:
  "\<bar>numeral n :: int\<bar> < 2 ^ 53 \<Longrightarrow> round_to_double (numeral n) = Fin (numeral n)"
  using round_int [of "numeral n"] by simp

lemma round_neg_numeral [simp]:
  "\<bar>numeral n :: int\<bar> < 2 ^ 53 \<Longrightarrow> round_to_double (- numeral n) = Fin (- numeral n)"
  using round_int [of "- numeral n"] by simp

lemma round_zero [simp]: "round_to_double 0 = Fin 0"
  by (simp add: round_to_double_def)

lemma round_one [simp]: "round_to_double 1 = Fin 1"
  using round_int [of 1] by simp

lemma round_half [simp]: "round_to_double (1 / 2) = Fin (1 / 2)"
  by (rule round_to_double_eval [where k = "- 1" and m = "2 ^ 52" and e = "- 53"])
     (simp_all add: pow2_def)

lemma round_big_tie: "round_to_double (18014398509481983 / 2) = Fin 9007199254740992"
  by (rule round_to_double_eval [where k = 52 and m = "9007199254740992" and e = 0])
     (simp_all add: pow2_def rhe_tie [where m = 9007199254740991])

lemma float_lit_ten [simp]: "float_lit 10 = Fin 10"
  by (simp add: float_lit_def)

section \<open>Serialization\<close>

text \<open>
  C2. For every ciphertext \<open>c\<close>, \<open>deserialize (serialize c)\<close> succeeds and returns a
  ciphertext equal to \<open>c\<close> field for field: the same key_id, payload, noise and
  created_at.
\<close>

theorem serialize_round_trip:
  "\<exists>c'. deserialize (serialize c) = Inr c' \<and> key_id c' = key_id c \<and> payload c' = payload c
       \<and> noise c' = noise c \<and> created_at c' = created_at c"
  by (simp add: serialize_def deserialize_numbers)

text \<open>
  C7, as the specification states it, fails: a token whose payload and noise are NaN and
  Infinity is not rejected; \<open>json.loads\<close> reads both and \<open>deserialize\<close> checks neither.
\<close>

theorem deserialize_accepts_non_finite:
  "deserialize (Encodes (JObj [(''key_id'', JStr ''k''), (''payload'', JArr [JNum NaN]),
                               (''noise'', JNum PInf), (''created_at'', JNum (Fin 0))]))
     = Inr \<lparr>key_id = ''k'', payload = [NaN], noise = PInf, created_at = Fin 0\<rparr>
   \<and> deserialize (Encodes (JObj [(''key_id'', JStr ''k''), (''payload'', JArr [JNum NaN]),
                               (''noise'', JNum PInf), (''created_at'', JNum (Fin 0))]))
     \<noteq> Inl MalformedToken"
  using deserialize_numbers [of "''k''" "[NaN]" PInf "Fin 0"] by simp

text \<open>
  C7, amended. \<open>deserialize\<close> fails with MalformedToken on every token that is not a valid
  encoding (the empty string, a string the decoders reject, a document that is not an
  object) and on every object that lacks one of key_id, payload, noise, created_at. A
  document whose four fields are a string, an array of numbers and two numbers is
  accepted whatever the numbers are, NaN and the infinities included.
\<close>

theorem deserialize_malformed:
  "(t = EmptyStr \<or> t = Undecodable \<longrightarrow> deserialize t = Inl MalformedToken)
 \<and> ((case j of JObj kvs \<Rightarrow> False | _ \<Rightarrow> True) \<longrightarrow> deserialize (Encodes j) = Inl MalformedToken)
 \<and> (name \<in> {''key_id'', ''payload'', ''noise'', ''created_at''} \<and> map_of kvs name = None
      \<longrightarrow> deserialize (Encodes (JObj kvs)) = Inl MalformedToken)
 \<and> deserialize (Encodes (JObj [(''key_id'', JStr k), (''payload'', JArr (map JNum p)),
                               (''noise'', JNum n), (''created_at'', JNum c)]))
     = Inr \<lparr>key_id = k, payload = p, noise = n, created_at = c\<rparr>"
proof -
  have c1: "t = EmptyStr \<or> t = Undecodable \<longrightarrow> deserialize t = Inl MalformedToken"
    by (auto simp: deserialize_def)
  have c2: "deserialize (Encodes j) = Inl MalformedToken" if "case j of JObj kvs \<Rightarrow> False | _ \<Rightarrow> True"
    using that by (cases j) (simp_all add: deserialize_def)
  have c3: "deserialize (Encodes (JObj kvs)) = Inl MalformedToken"
    if "name \<in> {''key_id'', ''payload'', ''noise'', ''created_at''}" "map_of kvs name = None"
  proof -
    have "raises (and_then (subscript kvs name) as_str)"
      and "raises (and_then (subscript kvs name) py_list)"
      and "raises (and_then (subscript kvs name) py_float)"
      using that(2) by (simp_all add: subscript_def raises_def)
    with that(1) show ?thesis
      by (auto simp: deserialize_def Let_def)
  qed
  from c1 c2 c3 show ?thesis
    by (simp only: deserialize_numbers) blast
qed

theorem deserialize_malformed_witness:
  "deserialize EmptyStr = Inl MalformedToken
 \<and> deserialize Undecodable = Inl MalformedToken
 \<and> deserialize (Encodes (JArr [])) = Inl MalformedToken
 \<and> deserialize (Encodes (JObj [(''key_id'', JStr ''k''), (''payload'', JArr [JNum (Fin 1)]),
                               (''created_at'', JNum (Fin 0))])) = Inl MalformedToken"
  using deserialize_malformed [of EmptyStr "JArr []" "''noise''"
      "[(''key_id'', JStr ''k''), (''payload'', JArr [JNum (Fin 1)]), (''created_at'', JNum (Fin 0))]"]
    deserialize_malformed [of Undecodable "JArr []" "''noise''" "[]"]
  by simp

section \<open>Validation\<close>

text \<open>
  C5. For every pair of valid ciphertexts whose payload lengths differ, each of add, mul
  and dot fails with DimensionMismatch and returns no ciphertext.
\<close>

theorem dimension_guard:
  assumes "coerce_ciphertext eng a = Inr ca" and "coerce_ciphertext eng b = Inr cb"
    and "length (payload ca) \<noteq> length (payload cb)"
  shows "add eng now a b = Inl DimensionMismatch
       \<and> mul eng now a b = Inl DimensionMismatch
       \<and> dot eng now a b = Inl DimensionMismatch"
  using assms by (simp add: add_def mul_def dot_def)

theorem dimension_guard_witness:
  "add eng1 (Fin 0) (Obj ct1) (Obj ct2) = Inl DimensionMismatch
 \<and> mul eng1 (Fin 0) (Obj ct1) (Obj ct2) = Inl DimensionMismatch
 \<and> dot eng1 (Fin 0) (Obj ct1) (Obj ct2) = Inl DimensionMismatch"
proof -
  have "length (payload ct1) \<noteq> length (payload ct2)"
    by (simp add: ct1_def ct2_def)
  from dimension_guard [OF coerce_ct1 coerce_ct2 this] show ?thesis .
qed

text \<open>
  C3. Every arithmetic operator validates its ciphertext operands, in order, before it
  computes anything: with no key generated it fails with KeysNotInitialized, with an
  operand of another key with KeyMismatch, with an empty payload with InvalidCiphertext,
  and the failure is all it returns. Two ciphertexts of different key generations are
  rejected with KeyMismatch by add, mul and dot.
\<close>

theorem validation_before_computation:
  assumes "denotes a ca" and "denotes b cb"
  shows "(\<forall>e. first_invalid eng [ca] = Some e \<longrightarrow>
            scalar_mul eng now a s = Inl e \<and> polynomial eng now a cs = Inl e
          \<and> mean eng now a = Inl e \<and> linear_model eng now a ws bias = Inl e)
       \<and> (\<forall>e. first_invalid eng [ca, cb] = Some e \<longrightarrow>
            add eng now a b = Inl e \<and> mul eng now a b = Inl e \<and> dot eng now a b = Inl e)
       \<and> (priv_key_id eng \<noteq> None \<and> key_id ca \<noteq> key_id cb \<and> payload ca \<noteq> [] \<longrightarrow>
            add eng now a b = Inl KeyMismatch \<and> mul eng now a b = Inl KeyMismatch
          \<and> dot eng now a b = Inl KeyMismatch)"
proof -
  note ca = coerce_denotes [OF assms(1), of eng] and cb = coerce_denotes [OF assms(2), of eng]
  have unary: "scalar_mul eng now a s = Inl e \<and> polynomial eng now a cs = Inl e
          \<and> mean eng now a = Inl e \<and> linear_model eng now a ws bias = Inl e"
    if "first_invalid eng [ca] = Some e" for e
    using that ca
    by (auto simp: scalar_mul_def polynomial_def mean_def linear_model_def split: option.splits)
  have binary: "add eng now a b = Inl e \<and> mul eng now a b = Inl e \<and> dot eng now a b = Inl e"
    if "first_invalid eng [ca, cb] = Some e" for e
    using that ca cb
    by (auto simp: add_def mul_def dot_def split: option.splits)
  have "first_invalid eng [ca, cb] = Some KeyMismatch"
    if "priv_key_id eng \<noteq> None" "key_id ca \<noteq> key_id cb" "payload ca \<noteq> []"
    using that by (auto simp: validation_error_def split: option.splits)
  with unary binary show ?thesis
    by blast
qed

theorem validation_before_computation_witness:
  "scalar_mul init_engine (Fin 0) (Obj ct1) (Fin 2) = Inl KeysNotInitialized
 \<and> polynomial init_engine (Fin 0) (Obj ct1) [Fin 1] = Inl KeysNotInitialized
 \<and> mean init_engine (Fin 0) (Obj ct1) = Inl KeysNotInitialized
 \<and> linear_model init_engine (Fin 0) (Obj ct1) [Fin 1] (Fin 0) = Inl KeysNotInitialized
 \<and> add eng1 (Fin 0) (Obj ct1) (Tok (serialize ct_empty)) = Inl InvalidCiphertext
 \<and> mul eng1 (Fin 0) (Obj ct1) (Tok (serialize ct_empty)) = Inl InvalidCiphertext
 \<and> dot eng1 (Fin 0) (Obj ct1) (Tok (serialize ct_empty)) = Inl InvalidCiphertext
 \<and> add eng1 (Fin 0) (Obj ct1) (Obj ct_other) = Inl KeyMismatch
 \<and> mul eng1 (Fin 0) (Obj ct1) (Obj ct_other) = Inl KeyMismatch
 \<and> dot eng1 (Fin 0) (Obj ct1) (Obj ct_other) = Inl KeyMismatch"
proof -
  have d1: "denotes (Obj ct1) ct1" and d2: "denotes (Obj ct_other) ct_other"
    by (simp_all add: denotes_def)
  have d3: "denotes (Tok (serialize ct_empty)) ct_empty"
    using deserialize_numbers [of "key_id ct_empty" "payload ct_empty" "noise ct_empty" "created_at ct_empty"]
    by (simp add: denotes_def serialize_def)
  have f1: "first_invalid init_engine [ct1] = Some KeysNotInitialized"
    by (simp add: validation_error_def init_engine_def)
  have f2: "first_invalid eng1 [ct1, ct_empty] = Some InvalidCiphertext"
    by (simp add: validation_error_def ct1_def ct_empty_def)
  have f3: "priv_key_id eng1 \<noteq> None \<and> key_id ct1 \<noteq> key_id ct_other \<and> payload ct1 \<noteq> []"
    by (simp add: ct1_def ct_other_def)
  show ?thesis
    using validation_before_computation [OF d1 d1, of init_engine "Fin 0" "Fin 2" "[Fin 1]" "[Fin 1]" "Fin 0"]
      validation_before_computation [OF d1 d3, of eng1 "Fin 0"]
      validation_before_computation [OF d1 d2, of eng1 "Fin 0"] f1 f2 f3
    by blast
qed

section \<open>Operators\<close>

text \<open>
  C4. For valid ciphertexts \<open>a\<close>, \<open>b\<close> of one length, add returns a ciphertext whose
  noise is exactly \<open>(na + nb) / 2\<close> and whose payload is the elementwise sum, and mul
  returns one whose noise is exactly \<open>na + nb + 1.0\<close> and whose payload is the
  elementwise product (each expression evaluated in binary64, as the code evaluates it).
\<close>

theorem noise_algebra:
  assumes "coerce_ciphertext eng a = Inr ca" and "coerce_ciphertext eng b = Inr cb"
    and "length (payload ca) = length (payload cb)"
    and "engine_key_id eng = Inr k"
  shows "(\<exists>c. add eng now a b = Inr c
            \<and> noise c = fdiv (fadd (noise ca) (noise cb)) (Fin 2)
            \<and> length (payload c) = length (payload ca)
            \<and> (\<forall>i < length (payload ca). payload c ! i = fadd (payload ca ! i) (payload cb ! i)))
       \<and> (\<exists>c. mul eng now a b = Inr c
            \<and> noise c = fadd (fadd (noise ca) (noise cb)) (float_lit 1)
            \<and> length (payload c) = length (payload ca)
            \<and> (\<forall>i < length (payload ca). payload c ! i = fmul (payload ca ! i) (payload cb ! i)))"
  using assms by (simp add: add_def mul_def)

theorem noise_algebra_witness:
  "(\<exists>c. add eng1 (Fin 0) (Obj ct2) (Obj ct2) = Inr c
            \<and> noise c = fdiv (fadd (noise ct2) (noise ct2)) (Fin 2)
            \<and> length (payload c) = length (payload ct2)
            \<and> (\<forall>i < length (payload ct2). payload c ! i = fadd (payload ct2 ! i) (payload ct2 ! i)))
 \<and> (\<exists>c. mul eng1 (Fin 0) (Obj ct2) (Obj ct2) = Inr c
            \<and> noise c = fadd (fadd (noise ct2) (noise ct2)) (float_lit 1)
            \<and> length (payload c) = length (payload ct2)
            \<and> (\<forall>i < length (payload ct2). payload c ! i = fmul (payload ct2 ! i) (payload ct2 ! i)))"
  by (rule noise_algebra [OF coerce_ct2 coerce_ct2 refl eng1_simps(4)])

text \<open>
  C10. For every valid ciphertext \<open>a\<close> and non-empty coefficient sequence, polynomial
  returns a ciphertext whose payload has the length of \<open>a\<close>'s, whose i-th element is
  Horner's value on \<open>a.payload[i]\<close>, and whose noise is \<open>a.noise + 0.3\<close>; with no
  coefficients it fails with InvalidInput.
\<close>

theorem polynomial_horner:
  assumes "coerce_ciphertext eng a = Inr ca" and "engine_key_id eng = Inr k"
  shows "polynomial eng now a [] = Inl InvalidInput
       \<and> (coeffs \<noteq> [] \<longrightarrow>
           (\<exists>c. polynomial eng now a coeffs = Inr c
              \<and> length (payload c) = length (payload ca)
              \<and> (\<forall>i < length (payload ca).
                    payload c ! i = horner_spec (Fin 0) (payload ca ! i) coeffs)
              \<and> noise c = fadd (noise ca) (float_lit (3 / 10))))"
  using assms
  by (simp add: polynomial_def horner_loop_def horner_loop_spec outer_loop_map)

theorem polynomial_horner_witness:
  "polynomial eng1 (Fin 0) (Obj ct2) [] = Inl InvalidInput
 \<and> (\<exists>c. polynomial eng1 (Fin 0) (Obj ct2) [Fin 1, Fin 0, Fin 2] = Inr c
        \<and> length (payload c) = length (payload ct2)
        \<and> (\<forall>i < length (payload ct2).
              payload c ! i = horner_spec (Fin 0) (payload ct2 ! i) [Fin 1, Fin 0, Fin 2])
        \<and> noise c = fadd (noise ct2) (float_lit (3 / 10)))"
  using polynomial_horner [OF coerce_ct2 eng1_simps(4), of "Fin 0" "[Fin 1, Fin 0, Fin 2]"]
  by simp

section \<open>Encryption and decryption\<close>

text \<open>
  C6. The specification has decrypt fail with KeyMismatch on a ciphertext of another key.
  The code does not: \<open>decrypt\<close> checks the secret key only, and where every arithmetic
  operator rejects the ciphertext below, \<open>decrypt\<close> returns its payload less its noise.
\<close>

theorem decrypt_ignores_key:
  "validate_ciphertext eng1 ct_other = Inl KeyMismatch
 \<and> decrypt eng1 ct_other = Inr [Fin 1]"
  by (simp add: validate_ciphertext_def decrypt_def ct_other_def fsub_def)

text \<open>
  C1, as the specification states it, fails: at the largest odd double below \<open>2^53\<close>
  and the noise 0.5 both the addition and the subtraction round upwards, and the value
  comes back greater by 1.
\<close>

theorem round_trip_counterexample:
  "is_double (Fin 9007199254740991)
 \<and> encrypt eng1 5 (Fin 0) [Fin 9007199254740991]
     = Inr \<lparr>key_id = ''00c0ffee00c0ffee'', payload = [Fin 9007199254740992],
            noise = Fin (1 / 2), created_at = Fin 0\<rparr>
 \<and> decrypt eng1 \<lparr>key_id = ''00c0ffee00c0ffee'', payload = [Fin 9007199254740992],
            noise = Fin (1 / 2), created_at = Fin 0\<rparr> = Inr [Fin 9007199254740992]
 \<and> \<not> \<bar>9007199254740992 - 9007199254740991\<bar> < (1 / 10 ^ 6 :: rat)"
  by (simp add: is_double_def encrypt_def decrypt_def isfinite_def fsub_def round_big_tie)

lemma fadd_error:
  assumes "\<bar>x + y\<bar> < pow2 k" and "- 1021 \<le> k" and "k \<le> 1023"
  shows "\<exists>z. fadd (Fin x) (Fin y) = Fin z \<and> \<bar>z - (x + y)\<bar> \<le> pow2 (k - 54)"
  using round_to_double_error [OF assms] by simp

lemma fsub_error:
  assumes "\<bar>x - y\<bar> < pow2 k" and "- 1021 \<le> k" and "k \<le> 1023"
  shows "\<exists>z. fsub (Fin x) (Fin y) = Fin z \<and> \<bar>z - (x - y)\<bar> \<le> pow2 (k - 54)"
  using round_to_double_error [of "x - y" k] assms by (simp add: fsub_def)

lemma drawn_noise:
  assumes "r < 100"
  shows "\<exists>n. fdiv (Fin (of_nat r)) (float_lit 10) = Fin n \<and> 0 \<le> n \<and> n < 10
           \<and> \<bar>n - of_nat r / 10\<bar> \<le> pow2 (- 50)"
proof -
  have "r \<le> 99"
    using assms by simp
  then have "(of_nat r :: rat) \<le> of_nat 99"
    by (simp only: of_nat_le_iff)
  then have r: "(of_nat r :: rat) \<le> 99"
    by simp
  then have "\<bar>of_nat r / 10 :: rat\<bar> < pow2 4"
    by (simp add: pow2_def)
  from round_to_double_error [OF this]
  obtain n where n: "round_to_double (of_nat r / 10) = Fin n" "\<bar>n - of_nat r / 10\<bar> \<le> pow2 (- 50)"
    by auto
  have "0 \<le> n"
    using round_to_double_nonneg [of "of_nat r / 10"] n(1) by simp
  moreover have "n < 10"
  proof -
    have "pow2 (- 50) < 1 / 10"
      by (simp add: pow2_def)
    with n(2) r show ?thesis
      by linarith
  qed
  ultimately show ?thesis
    using n by simp
qed


lemma abs_sum_bound:
  fixes x n b c :: rat
  assumes "\<bar>x\<bar> \<le> b" and "0 \<le> n" and "n < c"
  shows "\<bar>x + n\<bar> < b + c"
  using assms by linarith

lemma abs_diff_bound:
  fixes p x n b d :: rat
  assumes "\<bar>p - (x + n)\<bar> \<le> d" and "\<bar>x\<bar> \<le> b"
  shows "\<bar>p - n\<bar> \<le> b + d"
  using assms by linarith

lemma two_roundings:
  fixes p x n y d :: rat
  assumes "\<bar>p - (x + n)\<bar> \<le> d" and "\<bar>y - (p - n)\<bar> \<le> d"
  shows "\<bar>y - x\<bar> \<le> 2 * d"
  using assms by linarith

lemma round_trip_element:
  assumes "\<bar>x\<bar> \<le> 2 ^ 32" and "0 \<le> n" and "n < 10"
  shows "\<exists>p y. fadd (Fin x) (Fin n) = Fin p \<and> fsub (Fin p) (Fin n) = Fin y
           \<and> \<bar>y - x\<bar> < 1 / 10 ^ 6"
proof -
  have p33: "pow2 33 = 2 ^ 33" and p21: "pow2 (33 - 54) = 1 / 2 ^ 21"
    by (simp_all add: pow2_def power_int_minus_divide)
  have "\<bar>x + n\<bar> < 2 ^ 32 + 10"
    using assms by (rule abs_sum_bound)
  then have "\<bar>x + n\<bar> < pow2 33"
    unfolding p33 by simp
  from fadd_error [OF this]
  obtain p where p: "fadd (Fin x) (Fin n) = Fin p" "\<bar>p - (x + n)\<bar> \<le> pow2 (33 - 54)"
    by auto
  have "\<bar>p - n\<bar> \<le> 2 ^ 32 + pow2 (33 - 54)"
    using p(2) assms(1) by (rule abs_diff_bound)
  also have "\<dots> < pow2 33"
    unfolding p33 p21 by simp
  finally have "\<bar>p - n\<bar> < pow2 33" .
  from fsub_error [OF this]
  obtain y where y: "fsub (Fin p) (Fin n) = Fin y" "\<bar>y - (p - n)\<bar> \<le> pow2 (33 - 54)"
    by auto
  have "\<bar>y - x\<bar> \<le> 2 * pow2 (33 - 54)"
    using p(2) y(2) by (rule two_roundings)
  also have "\<dots> < 1 / 10 ^ 6"
    unfolding p21 by simp
  finally have "\<bar>y - x\<bar> < 1 / 10 ^ 6" .
  with p(1) y(1) show ?thesis
    by blast
qed

text \<open>
  C1, amended. On an engine whose keys have been generated, for every non-empty sequence
  of finite floats of magnitude at most \<open>2^32\<close> and every noise drawn,
  \<open>decrypt (encrypt v)\<close> returns a sequence of the length of \<open>v\<close> whose i-th element
  is within \<open>1e-6\<close> of \<open>v[i]\<close>.
\<close>

theorem round_trip_bounded:
  assumes "eng = fst (generate_keys eng0 ks kid pk sk)" and "kid \<noteq> []"
    and "r < 100" and "values \<noteq> []"
    and "list_all (magnitude_at_most (2 ^ 32)) values"
  shows "\<exists>ct out. encrypt eng r now values = Inr ct \<and> decrypt eng ct = Inr out
           \<and> length out = length values
           \<and> (\<forall>i < length values. close_to (1 / 10 ^ 6) (values ! i) (out ! i))"
proof -
  from drawn_noise [OF assms(3)]
  obtain n where n: "fdiv (Fin (of_nat r)) (float_lit 10) = Fin n" "0 \<le> n" "n < 10"
    by blast
  have fin: "list_all isfinite values"
    using assms(5) by (induction "values") (auto simp: magnitude_at_most_def isfinite_def split: fl.splits)
  have eng: "priv_public_key eng \<noteq> None" "priv_secret_key eng \<noteq> None" "engine_key_id eng = Inr kid"
    using assms(1,2) by (simp_all add: generate_keys_def engine_key_id_def)
  define ct where "ct = \<lparr>key_id = kid, payload = map (\<lambda>v. fadd v (Fin n)) values,
                         noise = Fin n, created_at = now\<rparr>"
  have enc: "encrypt eng r now values = Inr ct"
    using eng assms(4) fin n(1) by (simp add: encrypt_def ct_def Let_def del: float_lit_ten)
  define out where "out = map (\<lambda>v. fsub (fadd v (Fin n)) (Fin n)) values"
  have dec: "decrypt eng ct = Inr out"
    using eng by (simp add: decrypt_def ct_def out_def comp_def)
  have "close_to (1 / 10 ^ 6) (values ! i) (out ! i)" if "i < length values" for i
  proof -
    from that assms(5) have "magnitude_at_most (2 ^ 32) (values ! i)"
      by (simp add: list_all_length)
    then obtain x where x: "values ! i = Fin x" "\<bar>x\<bar> \<le> 2 ^ 32"
      by (auto simp: magnitude_at_most_def split: fl.splits)
    from round_trip_element [OF x(2) n(2,3)] that x(1) show ?thesis
      by (auto simp: out_def close_to_def)
  qed
  with enc dec show ?thesis
    by (auto simp: out_def)
qed

theorem round_trip_bounded_witness:
  "\<exists>ct out. encrypt eng1 7 (Fin 0) [Fin 1, Fin 2, Fin 3] = Inr ct \<and> decrypt eng1 ct = Inr out
     \<and> length out = length [Fin 1, Fin 2, Fin 3 :: fl]
     \<and> (\<forall>i < length [Fin 1, Fin 2, Fin 3 :: fl].
            close_to (1 / 10 ^ 6) ([Fin 1, Fin 2, Fin 3] ! i) (out ! i))"
  by (rule round_trip_bounded [where kid = "''00c0ffee00c0ffee''"])
     (simp_all add: eng1_def magnitude_at_most_def)

section \<open>Addition of two encryptions\<close>

text \<open>
  C9, as the specification states it, fails: the operand noises do not cancel. Each
  operand carries its own noise in its payload, the sum carries both, and decryption
  subtracts only their mean. With both noises drawn as 1.0 the result is \<open>[6, 8, 10]\<close>.
\<close>

theorem add_then_decrypt_counterexample:
  "encrypt eng1 10 (Fin 0) [Fin 1, Fin 2, Fin 3]
     = Inr \<lparr>key_id = ''00c0ffee00c0ffee'', payload = [Fin 2, Fin 3, Fin 4],
            noise = Fin 1, created_at = Fin 0\<rparr>
 \<and> encrypt eng1 10 (Fin 0) [Fin 4, Fin 5, Fin 6]
     = Inr \<lparr>key_id = ''00c0ffee00c0ffee'', payload = [Fin 5, Fin 6, Fin 7],
            noise = Fin 1, created_at = Fin 0\<rparr>
 \<and> add eng1 (Fin 0)
       (Obj \<lparr>key_id = ''00c0ffee00c0ffee'', payload = [Fin 2, Fin 3, Fin 4],
             noise = Fin 1, created_at = Fin 0\<rparr>)
       (Obj \<lparr>key_id = ''00c0ffee00c0ffee'', payload = [Fin 5, Fin 6, Fin 7],
             noise = Fin 1, created_at = Fin 0\<rparr>)
     = Inr \<lparr>key_id = ''00c0ffee00c0ffee'', payload = [Fin 7, Fin 9, Fin 11],
            noise = Fin 1, created_at = Fin 0\<rparr>
 \<and> decrypt eng1 \<lparr>key_id = ''00c0ffee00c0ffee'', payload = [Fin 7, Fin 9, Fin 11],
            noise = Fin 1, created_at = Fin 0\<rparr> = Inr [Fin 6, Fin 8, Fin 10]
 \<and> [Fin 6, Fin 8, Fin 10] \<noteq> [Fin 5, Fin 7, Fin 9]"
  by (simp add: encrypt_def add_def coerce_ciphertext_def validate_ciphertext_def decrypt_def
      isfinite_def fsub_def)

lemma fdiv_two_error:
  assumes "\<bar>x / 2\<bar> < pow2 k" and "- 1021 \<le> k" and "k \<le> 1023"
  shows "\<exists>z. fdiv (Fin x) (Fin 2) = Fin z \<and> \<bar>z - x / 2\<bar> \<le> pow2 (k - 54)"
  using round_to_double_error [OF assms] by simp

lemma noise_sum_bound:
  fixes n1 n2 :: rat
  assumes "0 \<le> n1" and "n1 < 10" and "0 \<le> n2" and "n2 < 10"
  shows "\<bar>n1 + n2\<bar> < 32"
  using assms by linarith

lemma noise_half_bound:
  fixes m n1 n2 d :: rat
  assumes "\<bar>m - (n1 + n2)\<bar> \<le> d" and "d \<le> 1"
    and "0 \<le> n1" and "n1 < 10" and "0 \<le> n2" and "n2 < 10"
  shows "\<bar>m / 2\<bar> < 32"
  using assms by linarith

lemma noise_mean_bound:
  fixes m h n1 n2 d q :: rat
  assumes "\<bar>m - (n1 + n2)\<bar> \<le> d" and "\<bar>h - m / 2\<bar> \<le> d" and "n1 + n2 = 2 * q"
  shows "\<bar>h - q\<bar> \<le> 2 * d"
  using assms by linarith

lemma mean_noise:
  assumes "0 \<le> n1" and "n1 < 10" and "0 \<le> n2" and "n2 < 10"
  shows "\<exists>h. fdiv (fadd (Fin n1) (Fin n2)) (Fin 2) = Fin h
           \<and> \<bar>h - (n1 + n2) / 2\<bar> \<le> 2 * pow2 (- 49)"
proof -
  have p5: "pow2 5 = 32" and d: "pow2 (5 - 54) \<le> 1"
    by (simp_all add: pow2_def power_int_minus_divide)
  have "\<bar>n1 + n2\<bar> < pow2 5"
    unfolding p5 using assms by (rule noise_sum_bound)
  from fadd_error [OF this]
  obtain m where m: "fadd (Fin n1) (Fin n2) = Fin m" "\<bar>m - (n1 + n2)\<bar> \<le> pow2 (5 - 54)"
    by auto
  have "\<bar>m / 2\<bar> < pow2 5"
    unfolding p5 using m(2) d assms by (rule noise_half_bound)
  from fdiv_two_error [OF this]
  obtain h where h: "fdiv (Fin m) (Fin 2) = Fin h" "\<bar>h - m / 2\<bar> \<le> pow2 (5 - 54)"
    by auto
  have "\<bar>h - (n1 + n2) / 2\<bar> \<le> 2 * pow2 (5 - 54)"
    using m(2) h(2) by (rule noise_mean_bound) simp
  with m(1) h(1) show ?thesis
    by simp
qed

lemma operand_bound:
  fixes a n :: rat
  assumes "0 \<le> a" and "a \<le> 6" and "0 \<le> n" and "n < 10"
  shows "\<bar>a + n\<bar> < 32"
  using assms by linarith

lemma sum_bound:
  fixes p1 p2 a b n1 n2 d :: rat
  assumes "\<bar>p1 - (a + n1)\<bar> \<le> d" and "\<bar>p2 - (b + n2)\<bar> \<le> d" and "d \<le> 1 / 8"
    and "0 \<le> a" and "a \<le> 3" and "0 \<le> b" and "b \<le> 6"
    and "0 \<le> n1" and "n1 < 10" and "0 \<le> n2" and "n2 < 10"
  shows "\<bar>p1 + p2\<bar> < 32"
  using assms by linarith

lemma sum_error:
  fixes p1 p2 s a b n1 n2 d :: rat
  assumes "\<bar>p1 - (a + n1)\<bar> \<le> d" and "\<bar>p2 - (b + n2)\<bar> \<le> d" and "\<bar>s - (p1 + p2)\<bar> \<le> d"
  shows "\<bar>s - (a + b + (n1 + n2))\<bar> \<le> 3 * d"
  using assms by linarith

lemma difference_bound:
  fixes s h a b n1 n2 d q :: rat
  assumes "\<bar>s - (a + b + (n1 + n2))\<bar> \<le> 3 * d" and "\<bar>h - q\<bar> \<le> 2 * d"
    and "n1 + n2 = 2 * q" and "d \<le> 1 / 8"
    and "0 \<le> a" and "a \<le> 3" and "0 \<le> b" and "b \<le> 6"
    and "0 \<le> n1" and "n1 < 10" and "0 \<le> n2" and "n2 < 10"
  shows "\<bar>s - h\<bar> < 32"
  using assms by linarith

lemma difference_error:
  fixes s h y a b n1 n2 d q :: rat
  assumes "\<bar>s - (a + b + (n1 + n2))\<bar> \<le> 3 * d" and "\<bar>h - q\<bar> \<le> 2 * d"
    and "n1 + n2 = 2 * q" and "\<bar>y - (s - h)\<bar> \<le> d"
  shows "\<bar>y - (a + b + q)\<bar> \<le> 6 * d"
  using assms by linarith

lemma add_decrypt_element:
  assumes a: "0 \<le> a" "a \<le> 3" and b: "0 \<le> b" "b \<le> 6"
    and n1: "0 \<le> n1" "n1 < 10" and n2: "0 \<le> n2" "n2 < 10"
    and h: "\<bar>h - q\<bar> \<le> 2 * pow2 (- 49)" and q: "n1 + n2 = 2 * q"
  shows "\<exists>y. fsub (fadd (fadd (Fin a) (Fin n1)) (fadd (Fin b) (Fin n2))) (Fin h) = Fin y
           \<and> \<bar>y - (a + b + q)\<bar> < 1 / 10 ^ 6"
proof -
  have p5: "pow2 5 = 32" and k: "(5 :: int) - 54 = - 49" and d: "pow2 (- 49) \<le> 1 / 8"
    and d6: "6 * pow2 (- 49) < 1 / 10 ^ 6"
    by (simp_all add: pow2_def power_int_minus_divide)
  have a6: "a \<le> 6"
    using a(2) by simp
  have "\<bar>a + n1\<bar> < pow2 5"
    unfolding p5 using a(1) a6 n1 by (rule operand_bound)
  from fadd_error [OF this]
  obtain p1 where p1: "fadd (Fin a) (Fin n1) = Fin p1" "\<bar>p1 - (a + n1)\<bar> \<le> pow2 (- 49)"
    unfolding k by auto
  have "\<bar>b + n2\<bar> < pow2 5"
    unfolding p5 using b n2 by (rule operand_bound)
  from fadd_error [OF this]
  obtain p2 where p2: "fadd (Fin b) (Fin n2) = Fin p2" "\<bar>p2 - (b + n2)\<bar> \<le> pow2 (- 49)"
    unfolding k by auto
  have "\<bar>p1 + p2\<bar> < pow2 5"
    unfolding p5 using p1(2) p2(2) d a b n1 n2 by (rule sum_bound)
  from fadd_error [OF this]
  obtain s where s: "fadd (Fin p1) (Fin p2) = Fin s" "\<bar>s - (p1 + p2)\<bar> \<le> pow2 (- 49)"
    unfolding k by auto
  have se: "\<bar>s - (a + b + (n1 + n2))\<bar> \<le> 3 * pow2 (- 49)"
    using p1(2) p2(2) s(2) by (rule sum_error)
  have "\<bar>s - h\<bar> < pow2 5"
    unfolding p5 using se h q d a b n1 n2 by (rule difference_bound)
  from fsub_error [OF this]
  obtain y where y: "fsub (Fin s) (Fin h) = Fin y" "\<bar>y - (s - h)\<bar> \<le> pow2 (- 49)"
    unfolding k by auto
  have "\<bar>y - (a + b + q)\<bar> \<le> 6 * pow2 (- 49)"
    using se h q y(2) by (rule difference_error)
  also note d6
  finally have "\<bar>y - (a + b + q)\<bar> < 1 / 10 ^ 6" .
  with p1(1) p2(1) s(1) y(1) show ?thesis
    by (simp only: exI [of _ y] simp_thms)
qed

text \<open>
  C9, amended. For every two encryptions of \<open>[1, 2, 3]\<close> and \<open>[4, 5, 6]\<close> under the
  same active key, with noises \<open>na\<close> and \<open>nb\<close>, add and then decrypt yield three
  values, the i-th within \<open>1e-6\<close> of \<open>[5, 7, 9][i] + (na + nb) / 2\<close>.
\<close>

theorem add_then_decrypt:
  assumes "eng = fst (generate_keys eng0 ks kid pk sk)" and "kid \<noteq> []"
    and "r1 < 100" and "r2 < 100"
  shows "\<exists>a b c out na nb.
           encrypt eng r1 t1 [Fin 1, Fin 2, Fin 3] = Inr a \<and> noise a = Fin na
         \<and> encrypt eng r2 t2 [Fin 4, Fin 5, Fin 6] = Inr b \<and> noise b = Fin nb
         \<and> add eng t3 (Obj a) (Obj b) = Inr c \<and> decrypt eng c = Inr out
         \<and> length out = 3
         \<and> (\<forall>i < 3. close_to (1 / 10 ^ 6) (Fin ([5, 7, 9] ! i + (na + nb) / 2)) (out ! i))"
proof -
  from drawn_noise [OF assms(3)]
  obtain na where na: "fdiv (Fin (of_nat r1)) (float_lit 10) = Fin na" "0 \<le> na" "na < 10"
    by blast
  from drawn_noise [OF assms(4)]
  obtain nb where nb: "fdiv (Fin (of_nat r2)) (float_lit 10) = Fin nb" "0 \<le> nb" "nb < 10"
    by blast
  from mean_noise [OF na(2,3) nb(2,3)]
  obtain h where h: "fdiv (fadd (Fin na) (Fin nb)) (Fin 2) = Fin h"
      "\<bar>h - (na + nb) / 2\<bar> \<le> 2 * pow2 (- 49)"
    by blast
  have q: "na + nb = 2 * ((na + nb) / 2)"
    by simp
  have eng: "priv_public_key eng \<noteq> None" "priv_secret_key eng \<noteq> None"
      "priv_key_id eng = Some kid" "engine_key_id eng = Inr kid"
    using assms(1,2) by (simp_all add: generate_keys_def engine_key_id_def)
  define a where "a = \<lparr>key_id = kid, payload = map (\<lambda>v. fadd v (Fin na)) [Fin 1, Fin 2, Fin 3],
                       noise = Fin na, created_at = t1\<rparr>"
  define b where "b = \<lparr>key_id = kid, payload = map (\<lambda>v. fadd v (Fin nb)) [Fin 4, Fin 5, Fin 6],
                       noise = Fin nb, created_at = t2\<rparr>"
  define c where "c = \<lparr>key_id = kid, payload = map2 fadd (payload a) (payload b),
                       noise = Fin h, created_at = t3\<rparr>"
  have enc_a: "encrypt eng r1 t1 [Fin 1, Fin 2, Fin 3] = Inr a"
    using eng na(1) by (simp add: encrypt_def a_def Let_def isfinite_def del: float_lit_ten fadd.simps)
  have enc_b: "encrypt eng r2 t2 [Fin 4, Fin 5, Fin 6] = Inr b"
    using eng nb(1) by (simp add: encrypt_def b_def Let_def isfinite_def del: float_lit_ten fadd.simps)
  have sum: "add eng t3 (Obj a) (Obj b) = Inr c"
    using eng h(1)
    by (simp add: add_def coerce_ciphertext_def validate_ciphertext_def a_def b_def c_def
        del: fadd.simps fdiv.simps)
  obtain y0 where y0: "fsub (fadd (fadd (Fin 1) (Fin na)) (fadd (Fin 4) (Fin nb))) (Fin h) = Fin y0"
      "\<bar>y0 - (1 + 4 + (na + nb) / 2)\<bar> < 1 / 10 ^ 6"
    using add_decrypt_element [of 1 4, OF _ _ _ _ na(2,3) nb(2,3) h(2) q] by auto
  obtain y1 where y1: "fsub (fadd (fadd (Fin 2) (Fin na)) (fadd (Fin 5) (Fin nb))) (Fin h) = Fin y1"
      "\<bar>y1 - (2 + 5 + (na + nb) / 2)\<bar> < 1 / 10 ^ 6"
    using add_decrypt_element [of 2 5, OF _ _ _ _ na(2,3) nb(2,3) h(2) q] by auto
  obtain y2 where y2: "fsub (fadd (fadd (Fin 3) (Fin na)) (fadd (Fin 6) (Fin nb))) (Fin h) = Fin y2"
      "\<bar>y2 - (3 + 6 + (na + nb) / 2)\<bar> < 1 / 10 ^ 6"
    using add_decrypt_element [of 3 6, OF _ _ _ _ na(2,3) nb(2,3) h(2) q] by auto
  have dec: "decrypt eng c = Inr [Fin y0, Fin y1, Fin y2]"
    using eng y0(1) y1(1) y2(1)
    by (simp add: decrypt_def c_def a_def b_def del: fadd.simps)
  have close: "\<forall>i < 3. close_to (1 / 10 ^ 6) (Fin ([5, 7, 9] ! i + (na + nb) / 2))
                 ([Fin y0, Fin y1, Fin y2] ! i)"
    using y0(2) y1(2) y2(2) by (simp add: close_to_def numeral_3_eq_3 All_less_Suc)
  have "noise a = Fin na" "noise b = Fin nb" "length [Fin y0, Fin y1, Fin y2] = 3"
    by (simp_all add: a_def b_def)
  with enc_a enc_b sum dec close show ?thesis
    by blast
qed

theorem add_then_decrypt_witness:
  "\<exists>a b c out na nb.
           encrypt eng1 3 (Fin 0) [Fin 1, Fin 2, Fin 3] = Inr a \<and> noise a = Fin na
         \<and> encrypt eng1 8 (Fin 0) [Fin 4, Fin 5, Fin 6] = Inr b \<and> noise b = Fin nb
         \<and> add eng1 (Fin 0) (Obj a) (Obj b) = Inr c \<and> decrypt eng1 c = Inr out
         \<and> length out = 3
         \<and> (\<forall>i < 3. close_to (1 / 10 ^ 6) (Fin ([5, 7, 9] ! i + (na + nb) / 2)) (out ! i))"
  by (rule add_then_decrypt [where kid = "''00c0ffee00c0ffee''"]) (simp_all add: eng1_def)

section \<open>The ciphertext invariant\<close>

lemma abs_pow2 [simp]: "\<bar>pow2 k\<bar> = pow2 k"
  by (simp add: less_imp_le)

lemma pow2_nonneg [simp]: "0 \<le> pow2 k"
  by (simp add: less_imp_le)

lemma pow2_52: "pow2 52 = of_int (2 ^ 52)"
  by (simp add: pow2_def)

lemma rhe_pow2: "round_half_even (pow2 (e + 52) / pow2 e) = 2 ^ 52"
proof -
  have "pow2 (e + 52) / pow2 e = pow2 52"
    using pow2_diff [of "e + 52" e] by simp
  then show ?thesis
    by (simp only: pow2_52 rhe_of_int)
qed

lemma round_pow2_1023: "round_to_double (pow2 1023) = Fin (pow2 1023)"
proof (rule round_to_double_eval [where k = 1023 and m = "2 ^ 52" and e = 971])
  show "round_half_even (pow2 1023 / pow2 971) = 2 ^ 52"
    using rhe_pow2 [of 971] by simp
  show "pow2 1023 = of_int (2 ^ 52) * pow2 971"
    using pow2_add [of 52 971] by (simp only: pow2_52) simp
qed (simp_all add: pow2_less_iff)

lemma round_pow2_overflow:
  assumes "1024 \<le> k"
  shows "round_to_double (pow2 k) = PInf"
proof -
  have i: "ilog2 \<bar>pow2 k\<bar> = k"
    by (rule ilog2_unique) (simp_all add: pow2_less_iff)
  have e: "max (k - 52) (- 1074) = k - 52"
    using assms by simp
  have m: "round_half_even (pow2 k / pow2 (k - 52)) = 2 ^ 52"
    using rhe_pow2 [of "k - 52"] by simp
  have y: "of_int (2 ^ 52) * pow2 (k - 52) = pow2 k"
    using pow2_add [of 52 "k - 52"] by (simp only: pow2_52) simp
  have "pow2 1024 \<le> pow2 k"
    using assms by (rule pow2_mono)
  then show ?thesis
    unfolding round_to_double_def Let_def i e using y by (simp add: m del: abs_pow2)
qed

lemma overflows:
  "fadd (Fin (pow2 1023)) (Fin (pow2 1023)) = PInf"
  "fmul (Fin (pow2 1023)) (Fin (pow2 1023)) = PInf"
  "fmul (Fin (pow2 1023)) (Fin 2) = PInf"
  "fmul (Fin 2) (Fin (pow2 1023)) = PInf"
proof -
  have a: "pow2 1023 + pow2 1023 = pow2 1024" "pow2 1023 * 2 = pow2 1024"
    "2 * pow2 1023 = pow2 1024"
    using pow2_Suc [of 1023] by simp_all
  have b: "pow2 1023 * pow2 1023 = pow2 2046"
    using pow2_add [of 1023 1023] by simp
  have o: "round_to_double (pow2 1024) = PInf" "round_to_double (pow2 2046) = PInf"
    by (simp_all add: round_pow2_overflow)
  show "fadd (Fin (pow2 1023)) (Fin (pow2 1023)) = PInf"
    "fmul (Fin (pow2 1023)) (Fin (pow2 1023)) = PInf"
    "fmul (Fin (pow2 1023)) (Fin 2) = PInf"
    "fmul (Fin 2) (Fin (pow2 1023)) = PInf"
    by (simp_all only: fadd.simps fmul.simps a b o)
qed

lemma no_overflows:
  "fadd (Fin (pow2 1023)) (Fin 0) = Fin (pow2 1023)"
  "fadd (Fin 0) (Fin (pow2 1023)) = Fin (pow2 1023)"
  "fmul (Fin 0) (Fin (pow2 1023)) = Fin 0"
  "fadd (Fin 0) (Fin 2) = Fin 2"
  "fadd (Fin 0) (Fin 0) = Fin 0"
  "is_double (Fin (pow2 1023))" "is_double (Fin 0)"
  by (simp_all add: round_pow2_1023 is_double_def)

text \<open>
  C8, as the specification states it, fails: binary64 arithmetic overflows and no
  operator checks its result. The encryption of \<open>[2.0 ** 1023]\<close> with the noise drawn as
  0.0 satisfies the invariant, and adding it to itself gives a ciphertext whose payload
  is \<open>[inf]\<close>. In the same way the payload of every other operator overflows on operands
  that satisfy the invariant, and so does the noise of add, mul and dot.
\<close>

theorem invariant_counterexample:
  "encrypt eng1 0 (Fin 0) [Fin (pow2 1023)] = Inr ct_big
 \<and> list_all is_double (payload ct_big)
 \<and> ciphertext_invariant ct_big
 \<and> add eng1 (Fin 0) (Obj ct_big) (Obj ct_big) = Inr ct_inf
 \<and> \<not> ciphertext_invariant ct_inf
 \<and> (\<exists>c. mul eng1 (Fin 0) (Obj ct_big) (Obj ct_big) = Inr c \<and> payload c = [PInf])
 \<and> (\<exists>c. scalar_mul eng1 (Fin 0) (Obj ct_big) (Fin 2) = Inr c \<and> payload c = [PInf])
 \<and> (\<exists>c. dot eng1 (Fin 0) (Obj ct_big) (Obj ct_big) = Inr c \<and> payload c = [PInf])
 \<and> (\<exists>c. polynomial eng1 (Fin 0) (Obj ct_big) [Fin 2, Fin 0] = Inr c \<and> payload c = [PInf])
 \<and> (\<exists>c. linear_model eng1 (Fin 0) (Obj ct_big) [Fin 2] (Fin 0) = Inr c \<and> payload c = [PInf])
 \<and> list_all is_double (payload ct_pair) \<and> ciphertext_invariant ct_pair
 \<and> (\<exists>c. mean eng1 (Fin 0) (Obj ct_pair) = Inr c \<and> payload c = [PInf])
 \<and> is_double (noise ct_noisy) \<and> ciphertext_invariant ct_noisy
 \<and> (\<exists>c. add eng1 (Fin 0) (Obj ct_noisy) (Obj ct_noisy) = Inr c \<and> noise c = PInf)
 \<and> (\<exists>c. mul eng1 (Fin 0) (Obj ct_noisy) (Obj ct_noisy) = Inr c \<and> noise c = PInf)
 \<and> (\<exists>c. dot eng1 (Fin 0) (Obj ct_noisy) (Obj ct_noisy) = Inr c \<and> noise c = PInf)"
proof -
  have big: "coerce_ciphertext eng1 (Obj ct_big) = Inr ct_big"
    and pair: "coerce_ciphertext eng1 (Obj ct_pair) = Inr ct_pair"
    and noisy: "coerce_ciphertext eng1 (Obj ct_noisy) = Inr ct_noisy"
    by (simp_all add: coerce_ciphertext_def validate_ciphertext_def ct_big_def ct_pair_def
        ct_noisy_def)
  have sel: "payload ct_big = [Fin (pow2 1023)]" "noise ct_big = Fin 0"
    "payload ct_pair = [Fin (pow2 1023), Fin (pow2 1023)]" "noise ct_pair = Fin 0"
    "payload ct_noisy = [Fin 1]" "noise ct_noisy = Fin (pow2 1023)"
    by (simp_all add: ct_big_def ct_pair_def ct_noisy_def)
  have "encrypt eng1 0 (Fin 0) [Fin (pow2 1023)] = Inr ct_big"
    by (simp add: encrypt_def isfinite_def ct_big_def Let_def round_pow2_1023)
  moreover have "list_all is_double (payload ct_big)" "ciphertext_invariant ct_big"
    "list_all is_double (payload ct_pair)" "ciphertext_invariant ct_pair"
    "is_double (noise ct_noisy)" "ciphertext_invariant ct_noisy"
    "\<not> ciphertext_invariant ct_inf"
    by (simp_all add: sel ciphertext_invariant_def isfinite_def nonnegative_def no_overflows
        ct_inf_def)
  moreover have "add eng1 (Fin 0) (Obj ct_big) (Obj ct_big) = Inr ct_inf"
    by (simp add: add_def big sel overflows no_overflows ct_inf_def
        del: fadd.simps(1) fmul.simps(1))
  moreover have "\<exists>c. mul eng1 (Fin 0) (Obj ct_big) (Obj ct_big) = Inr c \<and> payload c = [PInf]"
    by (simp add: mul_def big sel overflows del: fadd.simps(1) fmul.simps(1))
  moreover have "\<exists>c. scalar_mul eng1 (Fin 0) (Obj ct_big) (Fin 2) = Inr c \<and> payload c = [PInf]"
    by (simp add: scalar_mul_def big sel overflows del: fadd.simps(1) fmul.simps(1))
  moreover have "\<exists>c. dot eng1 (Fin 0) (Obj ct_big) (Obj ct_big) = Inr c \<and> payload c = [PInf]"
    by (simp add: dot_def np_dot_def big sel overflows del: fadd.simps(1) fmul.simps(1))
  moreover have "\<exists>c. polynomial eng1 (Fin 0) (Obj ct_big) [Fin 2, Fin 0] = Inr c
                      \<and> payload c = [PInf]"
    by (simp add: polynomial_def horner_loop_def Let_def big sel overflows no_overflows
        del: fadd.simps(1) fmul.simps(1))
  moreover have "\<exists>c. linear_model eng1 (Fin 0) (Obj ct_big) [Fin 2] (Fin 0) = Inr c
                      \<and> payload c = [PInf]"
    by (simp add: linear_model_def np_dot_def Let_def big sel overflows
        del: fadd.simps(1) fmul.simps(1))
  moreover have "\<exists>c. mean eng1 (Fin 0) (Obj ct_pair) = Inr c \<and> payload c = [PInf]"
    by (simp add: mean_def np_mean_def Let_def pair sel overflows no_overflows
        del: fadd.simps(1) fmul.simps(1))
  moreover have "\<exists>c. add eng1 (Fin 0) (Obj ct_noisy) (Obj ct_noisy) = Inr c \<and> noise c = PInf"
    by (simp add: add_def noisy sel overflows del: fadd.simps(1) fmul.simps(1))
  moreover have "\<exists>c. mul eng1 (Fin 0) (Obj ct_noisy) (Obj ct_noisy) = Inr c \<and> noise c = PInf"
    by (simp add: mul_def noisy sel overflows float_lit_def del: fadd.simps(1) fmul.simps(1))
  moreover have "\<exists>c. dot eng1 (Fin 0) (Obj ct_noisy) (Obj ct_noisy) = Inr c \<and> noise c = PInf"
    by (simp add: dot_def noisy sel overflows float_lit_def del: fadd.simps(1) fmul.simps(1))
  ultimately show ?thesis
    by (intro conjI)
qed

lemma scaled_error:
  "\<bar>of_int (round_half_even (x / pow2 e)) * pow2 e - x\<bar> \<le> pow2 (e - 1)"
proof -
  define m where "m = round_half_even (x / pow2 e)"
  have "\<bar>of_int m - x / pow2 e\<bar> \<le> 1 / 2"
    unfolding m_def by (rule rhe_error)
  then have le: "\<bar>of_int m - x / pow2 e\<bar> * pow2 e \<le> 1 / 2 * pow2 e"
    by (rule mult_right_mono) (simp add: less_imp_le)
  have eq1: "\<bar>of_int m - x / pow2 e\<bar> * pow2 e = \<bar>of_int m * pow2 e - x\<bar>"
  proof -
    have "\<bar>of_int m - x / pow2 e\<bar> * pow2 e = \<bar>(of_int m - x / pow2 e) * pow2 e\<bar>"
      by (simp add: abs_mult less_imp_le)
    also have "(of_int m - x / pow2 e) * pow2 e = of_int m * pow2 e - x"
      using pow2_pos [of e] by (simp add: algebra_simps)
    finally show ?thesis .
  qed
  have eq2: "1 / 2 * pow2 e = pow2 (e - 1)"
    using pow2_add [of "e - 1" 1] by (simp add: pow2_def)
  have "\<bar>of_int m * pow2 e - x\<bar> \<le> pow2 (e - 1)"
    using le by (simp only: eq1 eq2)
  then show ?thesis
    by (simp only: m_def)
qed

lemma top_binade:
  "pow2 1024 = 2 * pow2 1023" "pow2 971 = 2 * pow2 970" "pow2 970 = 2 * pow2 969"
  "pow2 971 \<le> pow2 1023" "10 \<le> pow2 969"
proof -
  show "pow2 1024 = 2 * pow2 1023"
    using pow2_Suc [of 1023] by simp
  show "pow2 971 = 2 * pow2 970"
    using pow2_Suc [of 970] by simp
  show "pow2 970 = 2 * pow2 969"
    using pow2_Suc [of 969] by simp
  show "pow2 971 \<le> pow2 1023"
    by (rule pow2_mono) simp
  have "(10 :: rat) \<le> pow2 4"
    by (simp add: pow2_def)
  also have "\<dots> \<le> pow2 969"
    by (rule pow2_mono) simp
  finally show "10 \<le> pow2 969" .
qed

lemma ilog2_below:
  assumes "x \<noteq> 0" and "\<bar>x\<bar> < pow2 k"
  shows "ilog2 \<bar>x\<bar> < k"
proof -
  have "pow2 (ilog2 \<bar>x\<bar>) \<le> \<bar>x\<bar>"
    using ilog2_bounds [of "\<bar>x\<bar>"] assms(1) by simp
  with assms(2) have "pow2 (ilog2 \<bar>x\<bar>) < pow2 k"
    by (rule le_less_trans [rotated])
  then show ?thesis
    by (simp add: pow2_less_iff)
qed

lemma round_to_double_finite:
  assumes "\<bar>z\<bar> \<le> pow2 1024 - pow2 971 + pow2 969"
  shows "\<exists>y. round_to_double z = Fin y"
proof (cases "z = 0")
  case True
  then show ?thesis
    by simp
next
  case False
  define e where "e = max (ilog2 \<bar>z\<bar> - 52) (- 1074)"
  define y where "y = of_int (round_half_even (z / pow2 e)) * pow2 e"
  have "\<bar>z\<bar> < pow2 1024"
    using assms top_binade(2,3) pow2_pos [of 969] by linarith
  with False have "ilog2 \<bar>z\<bar> < 1024"
    by (rule ilog2_below)
  then have e: "e - 1 \<le> 970"
    by (simp add: e_def)
  have "\<bar>y - z\<bar> \<le> pow2 (e - 1)"
    unfolding y_def by (rule scaled_error)
  also have "\<dots> \<le> pow2 970"
    using e by (rule pow2_mono)
  finally have "\<bar>y - z\<bar> \<le> pow2 970" .
  with assms have "\<bar>y\<bar> < pow2 1024"
    using top_binade(2,3) pow2_pos [of 969] by linarith
  then have "round_to_double z = Fin y"
    using False by (simp add: round_to_double_def Let_def e_def y_def abs_less_iff not_le)
  then show ?thesis
    by blast
qed

lemma is_double_bound:
  assumes "round_to_double x = Fin x"
  shows "\<bar>x\<bar> \<le> pow2 1024 - pow2 971"
proof (cases "x = 0")
  case True
  have "0 \<le> pow2 1024 - pow2 971"
    using top_binade(1,4) pow2_pos [of 1023] by linarith
  with True show ?thesis
    by simp
next
  case False
  define k where "k = ilog2 \<bar>x\<bar>"
  define e where "e = max (k - 52) (- 1074)"
  define m where "m = round_half_even (x / pow2 e)"
  have r: "round_to_double x = (if pow2 1024 \<le> of_int m * pow2 e then PInf
             else if of_int m * pow2 e \<le> - pow2 1024 then NInf else Fin (of_int m * pow2 e))"
    using False by (simp add: round_to_double_def Let_def k_def e_def m_def)
  from assms have x: "x = of_int m * pow2 e" and lt: "\<bar>x\<bar> < pow2 1024"
    unfolding r by (auto split: if_splits)
  from False lt have k: "k < 1024"
    unfolding k_def by (rule ilog2_below)
  show ?thesis
  proof (cases "k = 1023")
    case True
    then have e: "e = 971"
      by (simp add: e_def)
    have p: "pow2 1024 = of_int (2 ^ 53) * pow2 971"
      using pow2_add [of 53 971] by (simp add: pow2_def [of 53])
    have "\<bar>of_int m :: rat\<bar> * pow2 971 < of_int (2 ^ 53) * pow2 971"
      using lt unfolding p x e by (simp add: abs_mult)
    then have "\<bar>of_int m :: rat\<bar> < of_int (2 ^ 53)"
      by (simp only: mult_less_cancel_right_pos [OF pow2_pos])
    then have "(of_int \<bar>m\<bar> :: rat) < of_int (2 ^ 53)"
      by simp
    then have "\<bar>m\<bar> < 2 ^ 53"
      by (simp only: of_int_less_iff)
    then have "\<bar>m\<bar> \<le> 2 ^ 53 - 1"
      by simp
    then have "(of_int \<bar>m\<bar> :: rat) \<le> of_int (2 ^ 53 - 1)"
      by (simp only: of_int_le_iff)
    then have "of_int \<bar>m\<bar> * pow2 971 \<le> (of_int (2 ^ 53 - 1) :: rat) * pow2 971"
      by (rule mult_right_mono) (simp add: less_imp_le)
    also have "\<dots> = pow2 1024 - pow2 971"
      unfolding p by (simp add: algebra_simps)
    finally show ?thesis
      unfolding x e by (simp add: abs_mult)
  next
    case False
    with k have "k + 1 \<le> 1023"
      by simp
    then have "pow2 (k + 1) \<le> pow2 1023"
      by (rule pow2_mono)
    moreover have "\<bar>x\<bar> < pow2 (k + 1)"
      using ilog2_bounds [of "\<bar>x\<bar>"] \<open>x \<noteq> 0\<close> by (simp add: k_def)
    ultimately show ?thesis
      using top_binade(1,4) by linarith
  qed
qed

lemma noised_value_finite:
  assumes "is_double (Fin x)" and "0 \<le> n" and "n < 10"
  shows "isfinite (fadd (Fin x) (Fin n))"
proof -
  have "\<bar>x\<bar> \<le> pow2 1024 - pow2 971"
    using assms(1) by (simp add: is_double_def is_double_bound)
  with assms(2,3) have "\<bar>x + n\<bar> \<le> pow2 1024 - pow2 971 + pow2 969"
    using top_binade(5) by linarith
  from round_to_double_finite [OF this] show ?thesis
    by (auto simp: isfinite_def)
qed

lemma noised_payload_finite:
  assumes "0 \<le> n" and "n < 10"
  shows "list_all is_double vs \<Longrightarrow> list_all isfinite vs
           \<Longrightarrow> list_all isfinite (map (\<lambda>v. fadd v (Fin n)) vs)"
proof (induction vs)
  case Nil
  then show ?case by simp
next
  case (Cons v vs)
  from Cons.prems obtain x where "v = Fin x"
    by (cases v) (simp_all add: isfinite_def)
  with Cons assms show ?case
    using noised_value_finite [of x n] by (simp del: fadd.simps)
qed

lemma nonnegative_simps [simp]:
  "nonnegative (Fin x) \<longleftrightarrow> 0 \<le> x" "nonnegative PInf" "\<not> nonnegative NInf" "\<not> nonnegative NaN"
  by (simp_all add: nonnegative_def)

lemma nonnegative_round: "0 \<le> x \<Longrightarrow> nonnegative (round_to_double x)"
  using round_to_double_nonneg [of x] by auto

lemma nonnegative_fadd: "nonnegative a \<Longrightarrow> nonnegative b \<Longrightarrow> nonnegative (fadd a b)"
  by (cases a; cases b) (simp_all add: nonnegative_round)

lemma nonnegative_half: "nonnegative a \<Longrightarrow> nonnegative (fdiv a (Fin 2))"
  by (cases a) (simp_all add: nonnegative_round)

lemma nonnegative_lit: "0 \<le> q \<Longrightarrow> nonnegative (float_lit q)"
  by (simp add: float_lit_def nonnegative_round)

lemma encrypt_invariant:
  assumes "r < 100" and "list_all is_double values" and "encrypt eng r now values = Inr c"
  shows "ciphertext_invariant c"
proof -
  from drawn_noise [OF assms(1)]
  obtain n where n: "fdiv (Fin (of_nat r)) (float_lit 10) = Fin n" "0 \<le> n" "n < 10"
    by blast
  from assms(3) have v: "values \<noteq> []" "list_all isfinite values"
    by (auto simp: encrypt_def Let_def split: if_splits)
  from assms(3) n(1) have c: "payload c = map (\<lambda>v. fadd v (Fin n)) values" "noise c = Fin n"
    by (auto simp: encrypt_def Let_def and_then_def split: if_splits sum.splits
             simp del: float_lit_ten fdiv.simps)
  have "list_all isfinite (payload c)"
    unfolding c using n(2,3) assms(2) v(2) by (rule noised_payload_finite)
  with v(1) n(2) show ?thesis
    by (simp add: ciphertext_invariant_def c isfinite_def nonnegative_def)
qed

lemma validated_payload:
  "validation_error eng c = None \<Longrightarrow> payload c \<noteq> []"
  by (auto simp: validation_error_def split: option.splits if_splits)

lemma binary_operators_noise:
  assumes "denotes a ca" and "denotes b cb"
    and "nonnegative (noise ca)" and "nonnegative (noise cb)"
    and "res \<in> {add eng now a b, mul eng now a b, dot eng now a b}" and "res = Inr c"
  shows "payload c \<noteq> [] \<and> nonnegative (noise c)"
proof -
  note ca = coerce_denotes [OF assms(1), of eng] and cb = coerce_denotes [OF assms(2), of eng]
  have n: "nonnegative (fdiv (fadd (noise ca) (noise cb)) (Fin 2))"
    "nonnegative (fadd (fadd (noise ca) (noise cb)) (float_lit 1))"
    "nonnegative (fadd (fadd (noise ca) (noise cb)) (float_lit (5 / 10)))"
    using assms(3,4) by (simp_all add: nonnegative_fadd nonnegative_half nonnegative_lit)
  from assms(5,6) consider "add eng now a b = Inr c" | "mul eng now a b = Inr c"
    | "dot eng now a b = Inr c"
    by auto
  then show ?thesis
  proof cases
    case 1
    then show ?thesis
      using n(1) validated_payload [of eng ca] validated_payload [of eng cb]
      by (auto simp: add_def ca cb and_then_def split: option.splits if_splits sum.splits)
  next
    case 2
    then show ?thesis
      using n(2) validated_payload [of eng ca] validated_payload [of eng cb]
      by (auto simp: mul_def ca cb and_then_def split: option.splits if_splits sum.splits)
  next
    case 3
    then show ?thesis
      using n(3)
      by (auto simp: dot_def ca cb and_then_def split: option.splits if_splits sum.splits)
  qed
qed

lemma unary_operators_noise:
  assumes "denotes a ca" and "nonnegative (noise ca)"
    and "res \<in> {scalar_mul eng now a scalar, polynomial eng now a coeffs, mean eng now a,
                 linear_model eng now a weights bias}"
    and "res = Inr c"
  shows "payload c \<noteq> [] \<and> nonnegative (noise c)"
proof -
  note ca = coerce_denotes [OF assms(1), of eng]
  have n: "nonnegative (fadd (noise ca) (float_lit q))" if "0 \<le> q" for q
    using assms(2) that by (simp add: nonnegative_fadd nonnegative_lit)
  from assms(3,4) consider "scalar_mul eng now a scalar = Inr c"
    | "polynomial eng now a coeffs = Inr c" | "mean eng now a = Inr c"
    | "linear_model eng now a weights bias = Inr c"
    by auto
  then show ?thesis
  proof cases
    case 1
    then show ?thesis
      using n [of "2 / 10"] validated_payload [of eng ca]
      by (auto simp: scalar_mul_def ca and_then_def split: option.splits if_splits sum.splits)
  next
    case 2
    then show ?thesis
      using n [of "3 / 10"] validated_payload [of eng ca]
      by (auto simp: polynomial_def ca and_then_def outer_loop_map Let_def
               split: option.splits if_splits sum.splits)
  next
    case 3
    then show ?thesis
      using n [of "1 / 10"]
      by (auto simp: mean_def ca and_then_def Let_def split: option.splits if_splits sum.splits)
  next
    case 4
    then show ?thesis
      using n [of "4 / 10"]
      by (auto simp: linear_model_def ca and_then_def Let_def
               split: option.splits if_splits sum.splits)
  qed
qed

lemma small_literal:
  assumes "0 \<le> q" and "q \<le> 1"
  shows "\<exists>n. float_lit q = Fin n \<and> 0 \<le> n \<and> n < 10"
proof -
  have "\<bar>q\<bar> < pow2 1"
    using assms by (simp add: pow2_def)
  from round_to_double_error [OF this]
  obtain n where n: "round_to_double q = Fin n" "\<bar>n - q\<bar> \<le> pow2 (1 - 54)"
    by auto
  have "pow2 (1 - 54) \<le> 1"
    by (simp add: pow2_def power_int_minus_divide)
  with n(2) assms(2) have "n < 10"
    by linarith
  moreover have "0 \<le> n"
    using round_to_double_nonneg [OF assms(1)] n(1) by simp
  ultimately show ?thesis
    using n(1) by (simp add: float_lit_def)
qed

lemma raised_noise_finite:
  assumes "isfinite v" and "is_double v" and "0 \<le> q" and "q \<le> 1"
  shows "isfinite (fadd v (float_lit q))"
proof -
  from assms(1) obtain x where x: "v = Fin x"
    by (cases v) (simp_all add: isfinite_def)
  from small_literal [OF assms(3,4)]
  obtain n where n: "float_lit q = Fin n" "0 \<le> n" "n < 10"
    by blast
  from assms(2) n(2,3) show ?thesis
    unfolding x n(1) by (rule noised_value_finite)
qed

lemma unary_operators_finite_noise:
  assumes "denotes a ca" and "isfinite (noise ca)" and "is_double (noise ca)"
    and "res \<in> {scalar_mul eng now a scalar, polynomial eng now a coeffs, mean eng now a,
                 linear_model eng now a weights bias}"
    and "res = Inr c"
  shows "isfinite (noise c)"
proof -
  note ca = coerce_denotes [OF assms(1), of eng]
  have n: "isfinite (fadd (noise ca) (float_lit q))" if "0 \<le> q" "q \<le> 1" for q
    using assms(2,3) that by (rule raised_noise_finite)
  from assms(4,5) consider "scalar_mul eng now a scalar = Inr c"
    | "polynomial eng now a coeffs = Inr c" | "mean eng now a = Inr c"
    | "linear_model eng now a weights bias = Inr c"
    by auto
  then show ?thesis
  proof cases
    case 1
    then show ?thesis
      using n [of "2 / 10"]
      by (auto simp: scalar_mul_def ca and_then_def split: option.splits if_splits sum.splits)
  next
    case 2
    then show ?thesis
      using n [of "3 / 10"]
      by (auto simp: polynomial_def ca and_then_def Let_def
               split: option.splits if_splits sum.splits)
  next
    case 3
    then show ?thesis
      using n [of "1 / 10"]
      by (auto simp: mean_def ca and_then_def Let_def split: option.splits if_splits sum.splits)
  next
    case 4
    then show ?thesis
      using n [of "4 / 10"]
      by (auto simp: linear_model_def ca and_then_def Let_def
               split: option.splits if_splits sum.splits)
  qed
qed

text \<open>
  C8, amended. Every ciphertext produced by encrypt satisfies the invariant. Every
  ciphertext produced by add, mul, scalar_mul, dot, polynomial, mean or linear_model from
  operands whose noise is non-negative (as it is under the invariant) has a non-empty
  payload and a non-negative noise that is not NaN. The noise of a ciphertext produced
  by scalar_mul, polynomial, mean or linear_model from an operand whose noise is finite
  is finite. The payload values of all seven operators, and the noise of add, mul and
  dot, may have overflowed to an infinity.
\<close>

theorem produced_ciphertexts:
  assumes "r < 100" and "list_all is_double values"
    and "denotes a ca" and "denotes b cb"
    and "nonnegative (noise ca)" and "nonnegative (noise cb)"
  shows "(\<forall>c. encrypt eng r now values = Inr c \<longrightarrow> ciphertext_invariant c)
       \<and> (\<forall>res \<in> {add eng now a b, mul eng now a b, scalar_mul eng now a scalar,
                    dot eng now a b, polynomial eng now a coeffs, mean eng now a,
                    linear_model eng now a weights bias}.
            \<forall>c. res = Inr c \<longrightarrow> payload c \<noteq> [] \<and> nonnegative (noise c))
       \<and> (isfinite (noise ca) \<and> is_double (noise ca) \<longrightarrow>
            (\<forall>res \<in> {scalar_mul eng now a scalar, polynomial eng now a coeffs, mean eng now a,
                      linear_model eng now a weights bias}.
               \<forall>c. res = Inr c \<longrightarrow> isfinite (noise c)))"
proof (intro conjI allI ballI impI)
  fix c
  assume "encrypt eng r now values = Inr c"
  with assms(1,2) show "ciphertext_invariant c"
    by (rule encrypt_invariant)
next
  fix res c
  assume "isfinite (noise ca) \<and> is_double (noise ca)"
    and "res \<in> {scalar_mul eng now a scalar, polynomial eng now a coeffs, mean eng now a,
                linear_model eng now a weights bias}"
    and "res = Inr c"
  with assms(3) show "isfinite (noise c)"
    using unary_operators_finite_noise [of a ca res eng now scalar coeffs weights bias c]
    by blast
next
  fix res c
  assume res: "res \<in> {add eng now a b, mul eng now a b, scalar_mul eng now a scalar,
                    dot eng now a b, polynomial eng now a coeffs, mean eng now a,
                    linear_model eng now a weights bias}" and c: "res = Inr c"
  from res consider "res \<in> {add eng now a b, mul eng now a b, dot eng now a b}"
    | "res \<in> {scalar_mul eng now a scalar, polynomial eng now a coeffs, mean eng now a,
                 linear_model eng now a weights bias}"
    by auto
  then have "payload c \<noteq> [] \<and> nonnegative (noise c)"
  proof cases
    case 1
    with assms(3-6) show ?thesis
      using c by (rule binary_operators_noise)
  next
    case 2
    with assms(3,5) show ?thesis
      using c by (rule unary_operators_noise)
  qed
  then show "payload c \<noteq> []" and "nonnegative (noise c)"
    by simp_all
qed

theorem produced_ciphertexts_witness:
  "(\<exists>c. encrypt eng1 10 (Fin 0) [Fin 1] = Inr c \<and> ciphertext_invariant c)
 \<and> (\<exists>c. add eng1 (Fin 0) (Obj ct2) (Obj ct2) = Inr c \<and> payload c \<noteq> [] \<and> nonnegative (noise c))
 \<and> (\<exists>c. mul eng1 (Fin 0) (Obj ct2) (Obj ct2) = Inr c \<and> payload c \<noteq> [] \<and> nonnegative (noise c))
 \<and> (\<exists>c. scalar_mul eng1 (Fin 0) (Obj ct2) (Fin 2) = Inr c
        \<and> payload c \<noteq> [] \<and> nonnegative (noise c) \<and> isfinite (noise c))
 \<and> (\<exists>c. dot eng1 (Fin 0) (Obj ct2) (Obj ct2) = Inr c \<and> payload c \<noteq> [] \<and> nonnegative (noise c))
 \<and> (\<exists>c. polynomial eng1 (Fin 0) (Obj ct2) [Fin 1] = Inr c
        \<and> payload c \<noteq> [] \<and> nonnegative (noise c) \<and> isfinite (noise c))
 \<and> (\<exists>c. mean eng1 (Fin 0) (Obj ct2) = Inr c
        \<and> payload c \<noteq> [] \<and> nonnegative (noise c) \<and> isfinite (noise c))
 \<and> (\<exists>c. linear_model eng1 (Fin 0) (Obj ct2) [Fin 1, Fin 1] (Fin 0) = Inr c
        \<and> payload c \<noteq> [] \<and> nonnegative (noise c) \<and> isfinite (noise c))"
proof -
  have e: "encrypt eng1 10 (Fin 0) [Fin 1]
             = Inr \<lparr>key_id = ''00c0ffee00c0ffee'', payload = [Fin 2], noise = Fin 1,
                    created_at = Fin 0\<rparr>"
    by (simp add: encrypt_def isfinite_def)
  have l: "length (payload ct2) = 2"
    by (simp add: ct2_def)
  have r: "\<exists>c. add eng1 (Fin 0) (Obj ct2) (Obj ct2) = Inr c"
    "\<exists>c. mul eng1 (Fin 0) (Obj ct2) (Obj ct2) = Inr c"
    "\<exists>c. scalar_mul eng1 (Fin 0) (Obj ct2) (Fin 2) = Inr c"
    "\<exists>c. dot eng1 (Fin 0) (Obj ct2) (Obj ct2) = Inr c"
    "\<exists>c. polynomial eng1 (Fin 0) (Obj ct2) [Fin 1] = Inr c"
    "\<exists>c. mean eng1 (Fin 0) (Obj ct2) = Inr c"
    "\<exists>c. linear_model eng1 (Fin 0) (Obj ct2) [Fin 1, Fin 1] (Fin 0) = Inr c"
    using l
    by (simp_all add: add_def mul_def scalar_mul_def dot_def polynomial_def mean_def
        linear_model_def coerce_ct2 Let_def)
  have h: "(10 :: nat) < 100" "list_all is_double [Fin 1]" "denotes (Obj ct2) ct2"
    "nonnegative (noise ct2)"
    by (simp_all add: is_double_def denotes_def ct2_def)
  have f: "isfinite (noise ct2) \<and> is_double (noise ct2)"
    by (simp add: is_double_def isfinite_def ct2_def)
  from produced_ciphertexts [OF h(1,2,3,3,4,4), of eng1 "Fin 0" "Fin 2" "[Fin 1]"
      "[Fin 1, Fin 1]" "Fin 0"] f
  have "\<forall>c. encrypt eng1 10 (Fin 0) [Fin 1] = Inr c \<longrightarrow> ciphertext_invariant c"
    and "\<forall>res \<in> {add eng1 (Fin 0) (Obj ct2) (Obj ct2), mul eng1 (Fin 0) (Obj ct2) (Obj ct2),
                   scalar_mul eng1 (Fin 0) (Obj ct2) (Fin 2),
                   dot eng1 (Fin 0) (Obj ct2) (Obj ct2),
                   polynomial eng1 (Fin 0) (Obj ct2) [Fin 1], mean eng1 (Fin 0) (Obj ct2),
                   linear_model eng1 (Fin 0) (Obj ct2) [Fin 1, Fin 1] (Fin 0)}.
            \<forall>c. res = Inr c \<longrightarrow> payload c \<noteq> [] \<and> nonnegative (noise c)"
    and "\<forall>res \<in> {scalar_mul eng1 (Fin 0) (Obj ct2) (Fin 2),
                   polynomial eng1 (Fin 0) (Obj ct2) [Fin 1], mean eng1 (Fin 0) (Obj ct2),
                   linear_model eng1 (Fin 0) (Obj ct2) [Fin 1, Fin 1] (Fin 0)}.
            \<forall>c. res = Inr c \<longrightarrow> isfinite (noise c)"
    by blast+
  with e r show ?thesis
    by (simp only: insert_iff ball_simps) blast
qed

end
